theory Spec2Isabelle
  imports Main "HOL-Library.Char_ord" "HOL-Library.List_Lexorder" "HOL-Library.Multiset"
begin

section \<open>Listing discovery\<close>

text \<open>
  Both scraper scripts walk the listing pages \<open>1..pages\<close> in order. One page visit is the
  body of the \<^verbatim>\<open>try\<close> block: \<^verbatim>\<open>session.get\<close>, \<^verbatim>\<open>raise_for_status\<close>, the parse and the
  extraction loop. The remote site is an oracle giving, for a page number, either the
  exception text that the visit ends with or what the CSS selector finds on the page.
  Every page number is requested once, so a function of the page number covers every
  behaviour of the site. Python strings are modelled as byte strings in UTF-8; the
  lexicographic order on bytes agrees with Python's order on code points.
\<close>

datatype 'a page_result = Page_failed string | Page_ok 'a

text \<open>What \<^verbatim>\<open>print\<close> writes during discovery.\<close>

datatype notice = Fetching_page int | Failed_page int string

subsection \<open>ID-only variant (scraper_with_concur.py)\<close>

text \<open>
  A page is the list of \<^verbatim>\<open>data-objectid\<close> attributes of its \<^verbatim>\<open>a.objectLink\<close> anchors,
  \<open>None\<close> where the attribute is missing. \<^verbatim>\<open>if object_id:\<close> drops \<open>None\<close> and the
  empty string.
\<close>

type_synonym link_site = "int \<Rightarrow> string option list page_result"

fun add_object_id :: "string set \<Rightarrow> string option \<Rightarrow> string set" where
  "add_object_id object_ids None = object_ids"
| "add_object_id object_ids (Some object_id) =
     (if object_id \<noteq> [] then insert object_id object_ids else object_ids)"

definition add_page :: "string option list \<Rightarrow> string set \<Rightarrow> string set" where
  "add_page tags object_ids = foldl add_object_id object_ids tags"

fun scrape_pages :: "link_site \<Rightarrow> int list \<Rightarrow> string set \<times> notice list \<Rightarrow> string set \<times> notice list" where
  "scrape_pages site [] st = st"
| "scrape_pages site (page # rest) (object_ids, out) =
     (case site page of
        Page_ok tags \<Rightarrow>
          scrape_pages site rest (add_page tags object_ids, out @ [Fetching_page page])
      | Page_failed e \<Rightarrow>
          scrape_pages site rest (object_ids, out @ [Fetching_page page, Failed_page page e]))"

text \<open>\<^verbatim>\<open>range(1, pages + 1)\<close> is \<open>[1..pages]\<close>, empty for \<open>pages < 1\<close>. The result pairs the
  returned list \<^verbatim>\<open>sorted(object_ids)\<close> with the printed notices.\<close>

definition scrape_property_links :: "link_site \<Rightarrow> int \<Rightarrow> string list \<times> notice list" where
  "scrape_property_links site pages =
     (let (object_ids, out) = scrape_pages site [1..pages] ({}, [])
      in (sorted_list_of_set object_ids, out))"

text \<open>The identifiers one page contributes, and the pages of a range that fail.\<close>

definition page_ids :: "link_site \<Rightarrow> int \<Rightarrow> string set" where
  "page_ids site page =
     (case site page of
        Page_ok tags \<Rightarrow> {object_id. Some object_id \<in> set tags \<and> object_id \<noteq> []}
      | Page_failed e \<Rightarrow> {})"

subsection \<open>Price-aware variant (scraper_with_concur_and_price.py)\<close>

text \<open>
  A page is the list of its \<^verbatim>\<open>div.prices.objectInfos\<close> containers: the
  \<^verbatim>\<open>data-objectid\<close> attribute and the stripped text of the first \<^verbatim>\<open>p.pricetag\<close>
  inside, each \<open>None\<close> when absent.
\<close>

record container =
  data_objectid :: "string option"
  pricetag :: "string option"

record listing =
  object_id :: string
  link :: string
  price :: string

type_synonym price_site = "int \<Rightarrow> container list page_result"

definition BASE_URL :: string where
  "BASE_URL = ''https://www.bestfewo.de/expose/''"

text \<open>\<^verbatim>\<open>.replace("ab", "")\<close>: non-overlapping occurrences, left to right.\<close>

fun remove_ab :: "string \<Rightarrow> string" where
  "remove_ab (a # b # rest) =
     (if a = CHR ''a'' \<and> b = CHR ''b'' then remove_ab rest else a # remove_ab (b # rest))"
| "remove_ab s = s"

text \<open>\<^verbatim>\<open>.replace("\xa0", "")\<close>: the no-break space is the byte pair C2 A0 in UTF-8.\<close>

fun remove_nbsp :: "string \<Rightarrow> string" where
  "remove_nbsp (a # b # rest) =
     (if a = char_of (194::nat) \<and> b = char_of (160::nat) then remove_nbsp rest
      else a # remove_nbsp (b # rest))"
| "remove_nbsp s = s"

text \<open>
  \<^verbatim>\<open>.strip()\<close> removes the characters Python counts as white space from both ends:
  U+0009 to U+000D, U+001C to U+0020, U+0085, U+00A0, U+1680, U+2000 to U+200A, U+2028,
  U+2029, U+202F, U+205F and U+3000, here as their UTF-8 byte sequences. In well-formed
  UTF-8 such a sequence at either end of a string is that character. Every round removes
  at least one byte, so as many rounds as the string has bytes are enough.
\<close>

definition white_space :: "string list" where
  "white_space =
     map (\<lambda>n. [char_of n]) ([9..<14] @ [28..<33]) @
     [[char_of (194::nat), char_of (133::nat)], [char_of (194::nat), char_of (160::nat)],
      [char_of (225::nat), char_of (154::nat), char_of (128::nat)]] @
     map (\<lambda>n. [char_of (226::nat), char_of (128::nat), char_of n]) [128..<139] @
     [[char_of (226::nat), char_of (128::nat), char_of (168::nat)],
      [char_of (226::nat), char_of (128::nat), char_of (169::nat)],
      [char_of (226::nat), char_of (128::nat), char_of (175::nat)],
      [char_of (226::nat), char_of (129::nat), char_of (159::nat)],
      [char_of (227::nat), char_of (128::nat), char_of (128::nat)]]"

fun strip_front :: "string list \<Rightarrow> nat \<Rightarrow> string \<Rightarrow> string" where
  "strip_front spaces 0 s = s"
| "strip_front spaces (Suc n) s =
     (case find (\<lambda>p. take (length p) s = p) spaces of
        None \<Rightarrow> s
      | Some p \<Rightarrow> strip_front spaces n (drop (length p) s))"

definition lstrip :: "string \<Rightarrow> string" where
  "lstrip s = strip_front white_space (length s) s"

definition rstrip :: "string \<Rightarrow> string" where
  "rstrip s = rev (strip_front (map rev white_space) (length s) (rev s))"

definition strip :: "string \<Rightarrow> string" where
  "strip s = rstrip (lstrip s)"

definition clean_price :: "string option \<Rightarrow> string" where
  "clean_price price_tag =
     (case price_tag of
        None \<Rightarrow> ''N/A''
      | Some text \<Rightarrow> strip (remove_nbsp (remove_ab text)))"

definition listing_of :: "container \<Rightarrow> listing list" where
  "listing_of d =
     (case data_objectid d of
        None \<Rightarrow> []
      | Some oid \<Rightarrow>
          (if oid \<noteq> []
           then [\<lparr>object_id = oid, link = BASE_URL @ oid, price = clean_price (pricetag d)\<rparr>]
           else []))"

definition append_page :: "container list \<Rightarrow> listing list \<Rightarrow> listing list" where
  "append_page divs listings = foldl (\<lambda>acc d. acc @ listing_of d) listings divs"

fun scrape_pages_price ::
  "price_site \<Rightarrow> int list \<Rightarrow> listing list \<times> notice list \<Rightarrow> listing list \<times> notice list" where
  "scrape_pages_price site [] st = st"
| "scrape_pages_price site (page # rest) (listings, out) =
     (case site page of
        Page_ok divs \<Rightarrow>
          scrape_pages_price site rest (append_page divs listings, out @ [Fetching_page page])
      | Page_failed e \<Rightarrow>
          scrape_pages_price site rest (listings, out @ [Fetching_page page, Failed_page page e]))"

definition scrape_property_links_price :: "price_site \<Rightarrow> int \<Rightarrow> listing list \<times> notice list" where
  "scrape_property_links_price site pages = scrape_pages_price site [1..pages] ([], [])"

definition page_listings :: "price_site \<Rightarrow> int \<Rightarrow> listing list" where
  "page_listings site page =
     (case site page of
        Page_ok divs \<Rightarrow> concat (map listing_of divs)
      | Page_failed e \<Rightarrow> [])"

section \<open>The worker: save_html\<close>

text \<open>
  The environment answers the two calls of \<^verbatim>\<open>save_html\<close> that can fail. A GET
  (\<^verbatim>\<open>session.get\<close> with \<^verbatim>\<open>raise_for_status\<close>) returns the page text, raises a
  \<^verbatim>\<open>requests.RequestException\<close>, or raises another exception. Storing
  (\<^verbatim>\<open>os.makedirs\<close>, \<^verbatim>\<open>open(file_path, "w")\<close>, \<^verbatim>\<open>f.write\<close>) succeeds, fails before the
  file is created (\<^verbatim>\<open>makedirs\<close> or \<^verbatim>\<open>open\<close> raises), or fails after \<^verbatim>\<open>open\<close> has created
  or truncated the file, which then holds the bytes written so far. Each answer may depend
  on the calls made before it, so a remote page may change between two requests. Exception
  values are their \<^verbatim>\<open>str(e)\<close> text. The log file is assumed to be appendable and
  \<^verbatim>\<open>print\<close> and \<^verbatim>\<open>time.sleep\<close> not to fail.
\<close>

datatype response = Ok_response string | Request_exception string | Other_exception string

datatype store_result = Stored | Store_refused string | Store_broken string nat

record env =
  respond :: "string list \<Rightarrow> string \<Rightarrow> response"
  disk :: "string list \<Rightarrow> string \<Rightarrow> store_result"

text \<open>What \<^verbatim>\<open>save_html\<close> prints and how long it sleeps: the retry notice with the attempt
  number and the error, the backoff of \<open>2 ^ attempt\<close> seconds (plus a random part below one
  second, not modelled), and the courtesy delay after a stored page.\<close>

datatype event =
    Retry_notice string nat string
  | Backoff_sleep string nat
  | Courtesy_sleep string

text \<open>
  The shared state: the files of \<^verbatim>\<open>SAVE_DIR\<close> keyed by object id (the path is
  \<^verbatim>\<open>SAVE_DIR/<id>.html\<close>), the lines of \<^verbatim>\<open>LOG_FILE\<close>, the ids of the GET requests sent and
  of the store operations started, and the events above.
\<close>

record world =
  files :: "string \<rightharpoonup> string"
  log :: "string list"
  net :: "string list"
  writes :: "string list"
  events :: "event list"

text \<open>The value \<^verbatim>\<open>save_html\<close> returns: \<^verbatim>\<open>Already saved\<close>, \<^verbatim>\<open>Saved\<close>,
  \<^verbatim>\<open>Failed after retries\<close>, or \<^verbatim>\<open>Crash at ID\<close> with the exception text.\<close>

datatype outcome = Already_saved | Saved | Failed_after_retries | Crash string

text \<open>One call of \<^verbatim>\<open>log_result\<close> appends one element, the text written without its final
  newline.\<close>

definition log_line :: "bool \<Rightarrow> string \<Rightarrow> string \<Rightarrow> string" where
  "log_line success oid message =
     (if success then ''SUCCESS'' else ''ERROR'') @ '': '' @ oid @ '' '' @ message"

definition log_result :: "string \<Rightarrow> bool \<Rightarrow> string \<Rightarrow> world \<Rightarrow> world" where
  "log_result oid success message w = w\<lparr>log := log w @ [log_line success oid message]\<rparr>"

text \<open>One GET: the request is recorded and answered from the requests sent so far.\<close>

definition session_get :: "env \<Rightarrow> string \<Rightarrow> world \<Rightarrow> response \<times> world" where
  "session_get e oid w = (respond e (net w) oid, w\<lparr>net := net w @ [oid]\<rparr>)"

text \<open>The \<^verbatim>\<open>for attempt in range(5)\<close> loop with its \<^verbatim>\<open>else\<close>: the list holds the attempts
  still to run, and running out of them is the \<^verbatim>\<open>else\<close> branch.\<close>

datatype fetched = Got string | Exhausted | Raised string

definition after_failed_attempt :: "string \<Rightarrow> nat \<Rightarrow> string \<Rightarrow> world \<Rightarrow> world" where
  "after_failed_attempt oid attempt m w =
     w\<lparr>events := events w @ [Retry_notice oid (attempt + 1) m,
                              Backoff_sleep oid (2 ^ attempt)]\<rparr>"

fun retry_loop :: "env \<Rightarrow> string \<Rightarrow> nat list \<Rightarrow> world \<Rightarrow> fetched \<times> world" where
  "retry_loop e oid [] w = (Exhausted, w)"
| "retry_loop e oid (attempt # rest) w =
     (case session_get e oid w of
        (Ok_response body, w1) \<Rightarrow> (Got body, w1)
      | (Request_exception m, w1) \<Rightarrow>
          retry_loop e oid rest (after_failed_attempt oid attempt m w1)
      | (Other_exception m, w1) \<Rightarrow> (Raised m, w1))"

text \<open>\<^verbatim>\<open>os.makedirs\<close>, \<^verbatim>\<open>open(file_path, "w")\<close> and \<^verbatim>\<open>f.write(response.text)\<close>: \<open>Inl\<close> is the
  exception raised.\<close>

definition store_file :: "env \<Rightarrow> string \<Rightarrow> string \<Rightarrow> world \<Rightarrow> (string + unit) \<times> world" where
  "store_file e oid body w =
     (let w1 = w\<lparr>writes := writes w @ [oid]\<rparr>
      in case disk e (writes w) oid of
           Stored \<Rightarrow> (Inr (), w1\<lparr>files := (files w1)(oid \<mapsto> body)\<rparr>)
         | Store_refused m \<Rightarrow> (Inl m, w1)
         | Store_broken m n \<Rightarrow> (Inl m, w1\<lparr>files := (files w1)(oid \<mapsto> take n body)\<rparr>))"

definition courtesy_sleep :: "string \<Rightarrow> world \<Rightarrow> world" where
  "courtesy_sleep oid w = w\<lparr>events := events w @ [Courtesy_sleep oid]\<rparr>"

definition save_html :: "env \<Rightarrow> string \<Rightarrow> world \<Rightarrow> outcome \<times> world" where
  "save_html e oid w =
     (if files w oid \<noteq> None then (Already_saved, w)
      else
        (case retry_loop e oid [0..<5] w of
           (Exhausted, w1) \<Rightarrow>
             (Failed_after_retries, log_result oid False ''Failed after retries'' w1)
         | (Raised m, w1) \<Rightarrow> (Crash m, log_result oid False m w1)
         | (Got body, w1) \<Rightarrow>
             (case store_file e oid body w1 of
                (Inl m, w2) \<Rightarrow> (Crash m, log_result oid False m w2)
              | (Inr u, w2) \<Rightarrow>
                  (Saved, log_result oid True [] (courtesy_sleep oid w2)))))"

section \<open>The scheduler: download_with_eta\<close>

text \<open>
  \<^verbatim>\<open>ThreadPoolExecutor\<close> runs the submitted calls of \<^verbatim>\<open>save_html\<close> on up to
  \<^verbatim>\<open>max_workers\<close> threads, which interleave between their accesses to the files, the log
  and the network. A task is a call of \<^verbatim>\<open>save_html\<close> cut at these accesses; its program
  counter says where it stands: waiting in the queue, taken by a worker and about to test
  \<^verbatim>\<open>os.path.exists\<close>, in the retry loop with the attempts left, about to store the
  fetched text, about to log, or returned.
\<close>

datatype pc =
    Queued
  | Check
  | Fetch "nat list"
  | Store string
  | Log_ok
  | Log_crash string
  | Done outcome

fun task_step :: "env \<Rightarrow> string \<Rightarrow> pc \<times> world \<Rightarrow> pc \<times> world" where
  "task_step e oid (Queued, w) = (Check, w)"
| "task_step e oid (Check, w) =
     (if files w oid \<noteq> None then (Done Already_saved, w) else (Fetch [0..<5], w))"
| "task_step e oid (Fetch [], w) =
     (Done Failed_after_retries, log_result oid False ''Failed after retries'' w)"
| "task_step e oid (Fetch (attempt # rest), w) =
     (case session_get e oid w of
        (Ok_response body, w1) \<Rightarrow> (Store body, w1)
      | (Request_exception m, w1) \<Rightarrow> (Fetch rest, after_failed_attempt oid attempt m w1)
      | (Other_exception m, w1) \<Rightarrow> (Log_crash m, w1))"
| "task_step e oid (Store body, w) =
     (case store_file e oid body w of
        (Inl m, w2) \<Rightarrow> (Log_crash m, w2)
      | (Inr u, w2) \<Rightarrow> (Log_ok, courtesy_sleep oid w2))"
| "task_step e oid (Log_ok, w) = (Done Saved, log_result oid True [] w)"
| "task_step e oid (Log_crash m, w) = (Done (Crash m), log_result oid False m w)"
| "task_step e oid (Done r, w) = (Done r, w)"

text \<open>
  The pool: the tasks in submission order, the results in the order \<^verbatim>\<open>as_completed\<close>
  hands them to the main thread, and the shared state.
\<close>

record pool =
  tasks :: "(string \<times> pc) list"
  finished :: "(string \<times> outcome) list"
  shared :: world

fun is_done :: "pc \<Rightarrow> bool" where
  "is_done (Done r) = True"
| "is_done c = False"

definition running :: "string \<times> pc \<Rightarrow> bool" where
  "running t = (snd t \<noteq> Queued \<and> \<not> is_done (snd t))"

text \<open>The work queue is first in, first out: a queued task is taken when every task
  submitted before it has been taken and a worker is free.\<close>

definition can_start :: "int \<Rightarrow> (string \<times> pc) list \<Rightarrow> nat \<Rightarrow> bool" where
  "can_start max_workers ts i =
     (list_all (\<lambda>t. snd t \<noteq> Queued) (take i ts) \<and> int (length (filter running ts)) < max_workers)"

definition completion :: "string \<Rightarrow> pc \<Rightarrow> (string \<times> outcome) list" where
  "completion oid c = (case c of Done r \<Rightarrow> [(oid, r)] | _ \<Rightarrow> [])"

text \<open>One scheduling decision: thread \<open>i\<close> runs up to its next access. A choice that
  cannot run (no such task, a returned task, a queued task that may not start) changes
  nothing.\<close>

definition pool_step :: "env \<Rightarrow> int \<Rightarrow> nat \<Rightarrow> pool \<Rightarrow> pool" where
  "pool_step e max_workers i p =
     (if length (tasks p) \<le> i then p
      else
        (let (oid, c) = tasks p ! i
         in if is_done c then p
            else if c = Queued \<and> \<not> can_start max_workers (tasks p) i then p
            else
              (let (c', w') = task_step e oid (c, shared p)
               in p\<lparr>tasks := (tasks p)[i := (oid, c')],
                     finished := finished p @ completion oid c',
                     shared := w'\<rparr>)))"

definition run_pool :: "env \<Rightarrow> int \<Rightarrow> nat list \<Rightarrow> pool \<Rightarrow> pool" where
  "run_pool e max_workers schedule p = foldl (\<lambda>p i. pool_step e max_workers i p) p schedule"

definition submit_all :: "string list \<Rightarrow> world \<Rightarrow> pool" where
  "submit_all object_ids w =
     \<lparr>tasks = map (\<lambda>oid. (oid, Queued)) object_ids, finished = [], shared = w\<rparr>"

definition all_done :: "pool \<Rightarrow> bool" where
  "all_done p = list_all (\<lambda>t. is_done (snd t)) (tasks p)"

text \<open>
  \<^verbatim>\<open>download_with_eta\<close> returns when every future has completed. The schedule is the
  interleaving the threads happen to take; \<open>None\<close> says that the call has not returned
  within it. \<^verbatim>\<open>ThreadPoolExecutor\<close> raises \<^verbatim>\<open>ValueError\<close> for \<open>max_workers \<le> 0\<close>. The
  result is the printed results in completion order and the shared state. The ETA report
  (floating-point arithmetic on wall-clock time, printed only) is left out; the model is
  of calls with \<open>eta_interval \<noteq> 0\<close>, as in \<^verbatim>\<open>__main__\<close>.
\<close>

datatype pool_error = ValueError

definition download_with_eta ::
  "env \<Rightarrow> int \<Rightarrow> nat list \<Rightarrow> world \<Rightarrow> string list \<Rightarrow>
     (pool_error + (string \<times> outcome) list \<times> world) option" where
  "download_with_eta e max_workers schedule w object_ids =
     (if max_workers \<le> 0 then Some (Inl ValueError)
      else
        (let p = run_pool e max_workers schedule (submit_all object_ids w)
         in if all_done p then Some (Inr (finished p, shared p)) else None))"

text \<open>The price-aware script submits \<^verbatim>\<open>item["object_id"]\<close> for every listing.\<close>

definition download_with_eta_price ::
  "env \<Rightarrow> int \<Rightarrow> nat list \<Rightarrow> world \<Rightarrow> listing list \<Rightarrow>
     (pool_error + (string \<times> outcome) list \<times> world) option" where
  "download_with_eta_price e max_workers schedule w listings =
     download_with_eta e max_workers schedule w (map object_id listings)"

text \<open>The schedule that runs the tasks one after the other; a task takes at most nine
  steps.\<close>

definition sequential :: "nat \<Rightarrow> nat list" where
  "sequential n = concat (map (replicate 9) [0..<n])"

section \<open>Fixtures\<close>

text \<open>Three listing pages, the second of which cannot be fetched, and the same
  identifiers spread over two pages in another order.\<close>

definition three_pages :: link_site where
  "three_pages page =
     (if page = 1 then Page_ok [Some ''20'', Some ''10'']
      else if page = 2 then Page_failed ''TransportError''
      else if page = 3 then Page_ok [Some ''30'', None, Some [], Some ''10'']
      else Page_ok [Some ''99''])"

definition two_pages :: link_site where
  "two_pages page = (if page = 1 then Page_ok [Some ''30'', Some ''10''] else Page_ok [Some ''20''])"

text \<open>A site of the price-aware variant that lists object 7 on every page, at 100 on the
  first page and at 120 afterwards.\<close>

definition repeated_listing :: price_site where
  "repeated_listing page =
     Page_ok [\<lparr>data_objectid = Some ''7'',
               pricetag = Some (if page = 1 then ''ab 100'' else ''ab 120'')\<rparr>]"

text \<open>An empty save directory, and one that holds a page for \<open>A\<close>.\<close>

definition fresh :: world where
  "fresh = \<lparr>files = Map.empty, log = [], net = [], writes = [], events = []\<rparr>"

definition cached_A :: world where
  "cached_A = \<lparr>files = [''A'' \<mapsto> ''old page A''], log = [], net = [], writes = [], events = []\<rparr>"

text \<open>A server that never serves \<open>C\<close> (the fifth and later requests time out, the earlier
  ones are reset) and serves every other page; a disk that stores everything.\<close>

definition flaky :: env where
  "flaky =
     \<lparr>respond = (\<lambda>h oid.
        if oid = ''C''
        then Request_exception (if length h < 4 then ''connection reset'' else ''read timed out'')
        else Ok_response (''page '' @ oid)),
      disk = (\<lambda>h oid. Stored)\<rparr>"

text \<open>A server that serves every page, and a disk that is full: \<^verbatim>\<open>open\<close> creates the file
  and the write fails with nothing written.\<close>

definition disk_full :: env where
  "disk_full =
     \<lparr>respond = (\<lambda>h oid. Ok_response (''page '' @ oid)),
      disk = (\<lambda>h oid. Store_broken ''No space left on device'' 0)\<rparr>"

text \<open>A server that refuses every request.\<close>

definition unreachable :: env where
  "unreachable =
     \<lparr>respond = (\<lambda>h oid. Request_exception ''connection refused''), disk = (\<lambda>h oid. Stored)\<rparr>"

text \<open>A server whose pages change: the first request is answered with one text, every
  later request with another.\<close>

definition changing :: env where
  "changing =
     \<lparr>respond = (\<lambda>h oid. Ok_response (if h = [] then ''v1'' else ''v2'')),
      disk = (\<lambda>h oid. Stored)\<rparr>"

text \<open>What a returned call of \<^verbatim>\<open>download_with_eta\<close> printed, and the log and the requests
  it leaves behind.\<close>

definition outcomes ::
  "(pool_error + (string \<times> outcome) list \<times> world) option \<Rightarrow> (string \<times> outcome) list option" where
  "outcomes res = (case res of Some (Inr (outs, w)) \<Rightarrow> Some outs | _ \<Rightarrow> None)"

definition final_log ::
  "(pool_error + (string \<times> outcome) list \<times> world) option \<Rightarrow> string list option" where
  "final_log res = (case res of Some (Inr (outs, w)) \<Rightarrow> Some (log w) | _ \<Rightarrow> None)"

definition final_net ::
  "(pool_error + (string \<times> outcome) list \<times> world) option \<Rightarrow> string list option" where
  "final_net res = (case res of Some (Inr (outs, w)) \<Rightarrow> Some (net w) | _ \<Rightarrow> None)"

section \<open>Notions used in the proofs\<close>

text \<open>The log lines one result stands for: a result \<^verbatim>\<open>Already saved\<close> comes from the early
  return, which does not call \<^verbatim>\<open>log_result\<close>.\<close>

fun logged :: "string \<times> outcome \<Rightarrow> string list" where
  "logged (oid, Already_saved) = []"
| "logged (oid, Saved) = [log_line True oid []]"
| "logged (oid, Failed_after_retries) = [log_line False oid ''Failed after retries'']"
| "logged (oid, Crash m) = [log_line False oid m]"

text \<open>A task that is past the cache test and may still write its file; a task that has
  not touched the network or the disk.\<close>

fun writer :: "pc \<Rightarrow> bool" where
  "writer (Fetch atts) = True"
| "writer (Store body) = True"
| "writer c = False"

fun untouched :: "pc \<Rightarrow> bool" where
  "untouched Queued = True"
| "untouched Check = True"
| "untouched (Done Already_saved) = True"
| "untouched c = False"

text \<open>Invariants of a run that started in \<open>w0\<close>. Files that existed at the start are as
  they were, and only tasks whose file was absent then are fetching or storing.\<close>

definition keeps :: "world \<Rightarrow> pool \<Rightarrow> bool" where
  "keeps w0 p =
     ((\<forall>x b. files w0 x = Some b \<longrightarrow> files (shared p) x = Some b) \<and>
      (\<forall>t\<in>set (tasks p). writer (snd t) \<longrightarrow> files w0 (fst t) = None))"

text \<open>The log has grown by the lines of the results reported so far.\<close>

definition log_inv :: "world \<Rightarrow> pool \<Rightarrow> bool" where
  "log_inv w0 p = (log (shared p) = log w0 @ concat (map logged (finished p)))"

text \<open>The results of the returned tasks; the task list keeps the submitted ids, and the
  reported results are those of the returned tasks.\<close>

definition results_of :: "(string \<times> pc) list \<Rightarrow> (string \<times> outcome) list" where
  "results_of ts = concat (map (\<lambda>t. completion (fst t) (snd t)) ts)"

definition tally :: "string list \<Rightarrow> pool \<Rightarrow> bool" where
  "tally ids p = (map fst (tasks p) = ids \<and> mset (finished p) = mset (results_of (tasks p)))"

text \<open>An identifier \<open>x\<close> cached at the start: its tasks stay untouched and no request is
  sent for it.\<close>

definition skips :: "world \<Rightarrow> string \<Rightarrow> pool \<Rightarrow> bool" where
  "skips w0 x p =
     (files (shared p) x \<noteq> None \<and>
      filter (\<lambda>y. y = x) (net (shared p)) = filter (\<lambda>y. y = x) (net w0) \<and>
      (\<forall>t\<in>set (tasks p). fst t = x \<longrightarrow> untouched (snd t)) \<and>
      (\<forall>r. (x, r) \<in> set (finished p) \<longrightarrow> r = Already_saved))"

text \<open>Every submitted identifier cached at the start: the shared state does not move.\<close>

definition quiet :: "world \<Rightarrow> pool \<Rightarrow> bool" where
  "quiet w0 p =
     (shared p = w0 \<and>
      (\<forall>t\<in>set (tasks p). files w0 (fst t) \<noteq> None \<and> untouched (snd t)) \<and>
      (\<forall>d\<in>set (finished p). snd d = Already_saved))"

text \<open>A task about to log success, or reported as saved or skipped, has its file.\<close>

definition stored :: "pool \<Rightarrow> bool" where
  "stored p =
     ((\<forall>t\<in>set (tasks p). snd t = Log_ok \<longrightarrow> files (shared p) (fst t) \<noteq> None) \<and>
      (\<forall>d\<in>set (finished p). snd d = Saved \<or> snd d = Already_saved \<longrightarrow>
          files (shared p) (fst d) \<noteq> None))"

text \<open>The number of requests a task has sent, by program counter; for an identifier \<open>x\<close>
  absent at the start and submitted once, the requests for \<open>x\<close> are those of its task.\<close>

fun calls_ok :: "pc \<Rightarrow> nat \<Rightarrow> bool" where
  "calls_ok Queued k = (k = 0)"
| "calls_ok Check k = (k = 0)"
| "calls_ok (Fetch atts) k = (k + length atts = 5)"
| "calls_ok (Done Already_saved) k = (k = 0)"
| "calls_ok c k = (1 \<le> k \<and> k \<le> 5)"

definition waiting :: "pc \<Rightarrow> bool" where
  "waiting c = (c = Queued \<or> c = Check)"

definition own :: "world \<Rightarrow> string \<Rightarrow> pool \<Rightarrow> bool" where
  "own w0 x p =
     (\<forall>t\<in>set (tasks p). fst t = x \<longrightarrow>
        (\<exists>k. count_list (net (shared p)) x = count_list (net w0) x + k \<and> calls_ok (snd t) k) \<and>
        (waiting (snd t) \<longrightarrow> files (shared p) x = None) \<and>
        snd t \<noteq> Done Already_saved)"

definition own_distinct :: "string list \<Rightarrow> world \<Rightarrow> string \<Rightarrow> pool \<Rightarrow> bool" where
  "own_distinct ids w0 x p = (tally ids p \<and> own w0 x p)"

text \<open>A task stepped \<open>n\<close> times on its own, and the part of \<^verbatim>\<open>save_html\<close> after the retry
  loop.\<close>

definition run_task :: "env \<Rightarrow> string \<Rightarrow> nat \<Rightarrow> pc \<times> world \<Rightarrow> pc \<times> world" where
  "run_task e oid n = (task_step e oid) ^^ n"

definition conclude :: "env \<Rightarrow> string \<Rightarrow> fetched \<times> world \<Rightarrow> outcome \<times> world" where
  "conclude e oid fw =
     (case fw of
        (Exhausted, w1) \<Rightarrow>
          (Failed_after_retries, log_result oid False ''Failed after retries'' w1)
      | (Raised m, w1) \<Rightarrow> (Crash m, log_result oid False m w1)
      | (Got body, w1) \<Rightarrow>
          (case store_file e oid body w1 of
             (Inl m, w2) \<Rightarrow> (Crash m, log_result oid False m w2)
           | (Inr u, w2) \<Rightarrow> (Saved, log_result oid True [] (courtesy_sleep oid w2))))"

text \<open>The state of the pool between two tasks of the sequential schedule.\<close>

definition lined_up :: "nat \<Rightarrow> pool \<Rightarrow> bool" where
  "lined_up k p =
     (\<forall>j<length (tasks p). if j < k then is_done (snd (tasks p ! j)) else snd (tasks p ! j) = Queued)"

text \<open>In a run over a duplicate-free list, a task that is fetching or storing has no file
  yet.\<close>

definition guarded :: "pool \<Rightarrow> bool" where
  "guarded p =
     (distinct (map fst (tasks p)) \<and>
      (\<forall>t\<in>set (tasks p). writer (snd t) \<longrightarrow> files (shared p) (fst t) = None))"

definition guarded_with :: "string \<Rightarrow> string \<Rightarrow> pool \<Rightarrow> bool" where
  "guarded_with x b p = (guarded p \<and> files (shared p) x = Some b)"



section \<open>Properties of discovery\<close>

lemma add_page_eq: "add_page tags S = S \<union> {oid. Some oid \<in> set tags \<and> oid \<noteq> []}"
  unfolding add_page_def
proof (induction tags arbitrary: S)
  case Nil
  show ?case by simp
next
  case (Cons t tags)
  show ?case by (cases t) (auto simp: Cons.IH)
qed

lemma fst_scrape_pages:
  "fst (scrape_pages site ps (S, out)) = S \<union> (\<Union>p\<in>set ps. page_ids site p)"
proof (induction ps arbitrary: S out)
  case Nil
  show ?case by simp
next
  case (Cons p ps)
  show ?case by (cases "site p") (auto simp: Cons.IH page_ids_def add_page_eq)
qed

lemma finite_page_ids: "finite (page_ids site p)"
proof (cases "site p")
  case (Page_failed e)
  then show ?thesis by (simp add: page_ids_def)
next
  case (Page_ok tags)
  have "{oid. Some oid \<in> set tags \<and> oid \<noteq> []} \<subseteq> the ` set tags" by force
  then have "finite {oid. Some oid \<in> set tags \<and> oid \<noteq> []}"
    by (rule finite_subset) simp
  with Page_ok show ?thesis by (simp add: page_ids_def)
qed

lemma finite_discovered: "finite (\<Union>p\<in>{1..pages::int}. page_ids site p)"
  by (simp add: finite_page_ids)

lemma notices_kept:
  "x \<in> set out \<Longrightarrow> x \<in> set (snd (scrape_pages site ps (S, out)))"
proof (induction ps arbitrary: S out)
  case Nil
  then show ?case by simp
next
  case (Cons p ps)
  then show ?case by (cases "site p") simp_all
qed

lemma failed_page_noticed:
  "p \<in> set ps \<Longrightarrow> site p = Page_failed e \<Longrightarrow>
     Failed_page p e \<in> set (snd (scrape_pages site ps (S, out)))"
proof (induction ps arbitrary: S out)
  case Nil
  then show ?case by simp
next
  case (Cons q ps)
  show ?case
  proof (cases "q = p")
    case True
    with Cons.prems show ?thesis by (simp add: notices_kept)
  next
    case False
    with Cons.prems have "p \<in> set ps" by simp
    with Cons.IH Cons.prems show ?thesis by (cases "site q") simp_all
  qed
qed

lemma scrape_property_links_eq:
  "fst (scrape_property_links site pages) = sorted_list_of_set (\<Union>p\<in>{1..pages}. page_ids site p)"
  using fst_scrape_pages[of site "[1..pages]" "{}" "[]"]
  by (simp add: scrape_property_links_def case_prod_unfold Let_def)

lemma append_page_eq: "append_page divs L = L @ concat (map listing_of divs)"
  unfolding append_page_def by (induction divs arbitrary: L) simp_all

lemma fst_scrape_pages_price:
  "fst (scrape_pages_price site ps (L, out)) = L @ concat (map (page_listings site) ps)"
proof (induction ps arbitrary: L out)
  case Nil
  show ?case by simp
next
  case (Cons p ps)
  show ?case by (cases "site p") (simp_all add: Cons.IH page_listings_def append_page_eq)
qed

lemma three_pages_run:
  "scrape_property_links three_pages 3 =
     ([''10'', ''20'', ''30''],
      [Fetching_page 1, Fetching_page 2, Failed_page 2 ''TransportError'', Fetching_page 3])"
  by code_simp

lemma two_pages_run: "fst (scrape_property_links two_pages 2) = [''10'', ''20'', ''30'']"
  by code_simp

lemma three_pages_ids: "(\<Union>p\<in>{1..3}. page_ids three_pages p) = {''10'', ''20'', ''30''}"
proof -
  have "set (fst (scrape_property_links three_pages 3)) = (\<Union>p\<in>{1..3}. page_ids three_pages p)"
    by (simp only: scrape_property_links_eq
        sorted_list_of_set.set_sorted_key_list_of_set[OF finite_discovered])
  then show ?thesis by (simp add: three_pages_run)
qed

lemma two_pages_ids: "(\<Union>p\<in>{1..2}. page_ids two_pages p) = {''10'', ''20'', ''30''}"
proof -
  have "set (fst (scrape_property_links two_pages 2)) = (\<Union>p\<in>{1..2}. page_ids two_pages p)"
    by (simp only: scrape_property_links_eq
        sorted_list_of_set.set_sorted_key_list_of_set[OF finite_discovered])
  then show ?thesis by (simp add: two_pages_run)
qed

lemma repeated_listing_run:
  "fst (scrape_property_links_price repeated_listing 2) =
     [\<lparr>object_id = ''7'', link = ''https://www.bestfewo.de/expose/7'', price = ''100''\<rparr>,
      \<lparr>object_id = ''7'', link = ''https://www.bestfewo.de/expose/7'', price = ''120''\<rparr>]"
  by code_simp

text \<open>
  C7. Discovery never raises: a listing page whose fetch or parse fails is reported on the
  console and skipped, and the call returns the identifiers of all the pages of
  \<open>1..pages\<close> that could be read.
\<close>

theorem discovery_survives_failed_pages:
  "set (fst (scrape_property_links site pages)) = (\<Union>p\<in>{1..pages}. page_ids site p) \<and>
   (\<forall>p e. 1 \<le> p \<and> p \<le> pages \<and> site p = Page_failed e \<longrightarrow>
      Failed_page p e \<in> set (snd (scrape_property_links site pages)))"
proof -
  have "set (fst (scrape_property_links site pages)) = (\<Union>p\<in>{1..pages}. page_ids site p)"
    by (simp only: scrape_property_links_eq
        sorted_list_of_set.set_sorted_key_list_of_set[OF finite_discovered])
  moreover have "Failed_page p e \<in> set (snd (scrape_property_links site pages))"
    if "1 \<le> p" "p \<le> pages" "site p = Page_failed e" for p e
    using failed_page_noticed[of p "[1..pages]" site e "{}" "[]"] that
    by (simp add: scrape_property_links_def case_prod_unfold Let_def)
  ultimately show ?thesis by blast
qed

text \<open>Over three pages of which the second fails, the result is what pages 1 and 3 hold.\<close>

theorem discovery_survives_failed_pages_witness:
  "three_pages 2 = Page_failed ''TransportError'' \<and>
   set (fst (scrape_property_links three_pages 3)) = page_ids three_pages 1 \<union> page_ids three_pages 3 \<and>
   Failed_page 2 ''TransportError'' \<in> set (snd (scrape_property_links three_pages 3))"
proof -
  have failed: "three_pages 2 = Page_failed ''TransportError''"
    by (simp add: three_pages_def)
  have "page_ids three_pages 2 = {}"
    by (simp add: page_ids_def failed)
  moreover have "{1..3::int} = {1, 2, 3}" by auto
  ultimately have "(\<Union>p\<in>{1..3}. page_ids three_pages p) = page_ids three_pages 1 \<union> page_ids three_pages 3"
    by simp
  with discovery_survives_failed_pages[where site = three_pages and pages = 3] failed show ?thesis by simp
qed

text \<open>
  C9. The ID-only discoverer returns the discovered identifiers as a strictly ascending
  list in lexicographic order, hence without duplicates, and the list depends only on the
  set of identifiers discovered, not on the pages or the order in which they appeared.
\<close>

theorem discovery_sorted_deterministic:
  "sorted_wrt (<) (fst (scrape_property_links site pages)) \<and>
   set (fst (scrape_property_links site pages)) = (\<Union>p\<in>{1..pages}. page_ids site p) \<and>
   ((\<Union>p\<in>{1..pages'}. page_ids site' p) = (\<Union>p\<in>{1..pages}. page_ids site p) \<longrightarrow>
      fst (scrape_property_links site' pages') = fst (scrape_property_links site pages))"
proof -
  let ?found = "\<Union>p\<in>{1..pages}. page_ids site p"
  have result: "fst (scrape_property_links site pages) = sorted_list_of_set ?found"
    by (rule scrape_property_links_eq)
  have fin: "finite ?found"
    by (rule finite_discovered)
  have "sorted_wrt (<) (sorted_list_of_set ?found)"
    by (rule sorted_list_of_set.strict_sorted_key_list_of_set)
  moreover have "set (sorted_list_of_set ?found) = ?found"
    using fin by (rule sorted_list_of_set.set_sorted_key_list_of_set)
  moreover have "fst (scrape_property_links site' pages') = sorted_list_of_set ?found"
    if "(\<Union>p\<in>{1..pages'}. page_ids site' p) = ?found"
    using that scrape_property_links_eq[of site' pages'] by simp
  ultimately show ?thesis by (simp add: result)
qed

theorem discovery_sorted_deterministic_witness:
  "(\<Union>p\<in>{1..2}. page_ids two_pages p) = (\<Union>p\<in>{1..3}. page_ids three_pages p) \<and>
   fst (scrape_property_links two_pages 2) = fst (scrape_property_links three_pages 3) \<and>
   sorted_wrt (<) (fst (scrape_property_links three_pages 3))"
proof -
  have same: "(\<Union>p\<in>{1..2}. page_ids two_pages p) = (\<Union>p\<in>{1..3}. page_ids three_pages p)"
    by (simp only: three_pages_ids two_pages_ids)
  with discovery_sorted_deterministic[where site = three_pages and pages = 3
      and site' = two_pages and pages' = 2] show ?thesis by blast
qed

text \<open>
  C3, as the code has it. The ID-only discoverer returns every discovered identifier
  exactly once. The price-aware discoverer does not merge anything: it returns one record
  for every container with a non-empty identifier on every page that could be read, in
  page order, so an identifier listed on several pages comes back once per listing, each
  record with the price seen there.
\<close>

theorem catalog_ids_unique_listings_kept:
  "distinct (fst (scrape_property_links site pages)) \<and>
   set (fst (scrape_property_links site pages)) = (\<Union>p\<in>{1..pages}. page_ids site p) \<and>
   fst (scrape_property_links_price psite ppages) =
     concat (map (page_listings psite) [1..ppages])"
  using fst_scrape_pages_price[of psite "[1..ppages]" "[]" "[]"]
  by (simp add: scrape_property_links_eq finite_discovered scrape_property_links_price_def)

theorem catalog_ids_unique_listings_kept_witness:
  "distinct (fst (scrape_property_links three_pages 3)) \<and>
   fst (scrape_property_links_price repeated_listing 2) =
     page_listings repeated_listing 1 @ page_listings repeated_listing 2"
proof -
  have "[1..2::int] = [1, 2]" by (simp add: upto.simps)
  with catalog_ids_unique_listings_kept[where site = three_pages and pages = 3
      and psite = repeated_listing and ppages = 2] show ?thesis
    by simp
qed

text \<open>The same identifier on two pages of the price-aware site gives two records with the
  same id, and the first one keeps the earlier price.\<close>

theorem catalog_dedup_counterexample:
  "map object_id (fst (scrape_property_links_price repeated_listing 2)) = [''7'', ''7''] \<and>
   map price (fst (scrape_property_links_price repeated_listing 2)) = [''100'', ''120'']"
  by (simp add: repeated_listing_run)

section \<open>Properties of the worker\<close>


lemma retry_loop_frame:
  "retry_loop e oid atts w = (f, w') \<Longrightarrow>
     files w' = files w \<and> log w' = log w \<and> writes w' = writes w"
proof (induction atts arbitrary: w)
  case Nil
  then show ?case by simp
next
  case (Cons a atts)
  show ?case
  proof (cases "respond e (net w) oid")
    case (Ok_response body)
    with Cons.prems show ?thesis by (auto simp: session_get_def)
  next
    case (Request_exception m)
    with Cons.prems have
      "retry_loop e oid atts (after_failed_attempt oid a m (w\<lparr>net := net w @ [oid]\<rparr>)) = (f, w')"
      by (simp add: session_get_def)
    from Cons.IH[OF this] show ?thesis by (simp add: after_failed_attempt_def)
  next
    case (Other_exception m)
    with Cons.prems show ?thesis by (auto simp: session_get_def)
  qed
qed

text \<open>A fetched text is the answer to one of the requests of the loop.\<close>

lemma retry_loop_got:
  "retry_loop e oid atts w = (Got body, w') \<Longrightarrow>
     \<exists>k<length atts. respond e (net w @ replicate k oid) oid = Ok_response body"
proof (induction atts arbitrary: w)
  case Nil
  then show ?case by simp
next
  case (Cons a atts)
  show ?case
  proof (cases "respond e (net w) oid")
    case (Ok_response b)
    with Cons.prems have "b = body" by (simp add: session_get_def)
    with Ok_response have "respond e (net w @ replicate 0 oid) oid = Ok_response body" by simp
    then show ?thesis by (intro exI[of _ 0]) simp
  next
    case (Request_exception m)
    with Cons.prems have
      "retry_loop e oid atts (after_failed_attempt oid a m (w\<lparr>net := net w @ [oid]\<rparr>)) = (Got body, w')"
      by (simp add: session_get_def)
    from Cons.IH[OF this] obtain k where k: "k < length atts"
      "respond e ((net w @ [oid]) @ replicate k oid) oid = Ok_response body"
      by (auto simp: after_failed_attempt_def)
    then have "respond e (net w @ replicate (Suc k) oid) oid = Ok_response body" by simp
    with k(1) show ?thesis by (intro exI[of _ "Suc k"]) simp
  next
    case (Other_exception m)
    with Cons.prems show ?thesis by (simp add: session_get_def)
  qed
qed

lemma store_file_frame:
  "store_file e oid body w = (r, w') \<Longrightarrow>
     log w' = log w \<and> net w' = net w \<and> (\<forall>x. x \<noteq> oid \<longrightarrow> files w' x = files w x)"
  by (auto simp: store_file_def Let_def split: store_result.splits)

lemma store_file_refused:
  "store_file e oid body w = (Inl m, w') \<Longrightarrow> \<forall>m n. disk e (writes w) oid \<noteq> Store_broken m n \<Longrightarrow>
     files w' = files w"
  by (auto simp: store_file_def Let_def split: store_result.splits)

lemma store_file_content:
  "store_file e oid body w = (r, w') \<Longrightarrow> files w' oid = files w oid \<or> (\<exists>n. files w' oid = Some (take n body))"
  apply (auto simp: store_file_def Let_def split: store_result.splits)
  by (metis order_refl take_all)



text \<open>
  C10, as the code has it. For an identifier that is not cached when its worker starts: if
  the worker does not report \<^verbatim>\<open>Saved\<close> and the store operation does not fail after
  \<^verbatim>\<open>open\<close> has created the file, the cache is unchanged. In every case the worker touches
  no other identifier's file, and a file for its identifier exists afterwards only if one
  of its requests was answered, the file holding that answer or the part of it written.
\<close>

theorem failed_leaves_cache:
  assumes absent: "files w oid = None"
    and run: "save_html e oid w = (r, w')"
  shows "(r \<noteq> Saved \<and> (\<forall>m n. disk e (writes w) oid \<noteq> Store_broken m n) \<longrightarrow> files w' = files w) \<and>
         (\<forall>x. x \<noteq> oid \<longrightarrow> files w' x = files w x) \<and>
         (files w' oid \<noteq> None \<longrightarrow>
            (\<exists>k<5. \<exists>body n. respond e (net w @ replicate k oid) oid = Ok_response body \<and>
               files w' oid = Some (take n body)))"
proof -
  obtain f w1 where loop: "retry_loop e oid [0..<5] w = (f, w1)"
    by (cases "retry_loop e oid [0..<5] w")
  from retry_loop_frame[OF loop]
  have w1: "files w1 = files w" "writes w1 = writes w" by simp_all
  show ?thesis
  proof (cases f)
    case Exhausted
    with absent run loop have "files w' = files w1" by (auto simp: save_html_def log_result_def)
    with w1 absent show ?thesis by simp
  next
    case (Raised m)
    with absent run loop have "files w' = files w1" by (auto simp: save_html_def log_result_def)
    with w1 absent show ?thesis by simp
  next
    case (Got body)
    obtain s w2 where store: "store_file e oid body w1 = (s, w2)"
      by (cases "store_file e oid body w1")
    from absent run loop Got store have w': "files w' = files w2"
      by (cases s) (auto simp: save_html_def log_result_def courtesy_sleep_def)
    from absent run loop Got store have r: "r \<noteq> Saved \<Longrightarrow> \<exists>m. s = Inl m"
      by (cases s) (auto simp: save_html_def)
    have A: "files w' = files w" if "r \<noteq> Saved" "\<forall>m n. disk e (writes w) oid \<noteq> Store_broken m n"
    proof -
      from r that(1) obtain m where "s = Inl m" by blast
      with store have "store_file e oid body w1 = (Inl m, w2)" by simp
      from store_file_refused[OF this] that(2) w1 w' show ?thesis by simp
    qed
    have B: "\<forall>x. x \<noteq> oid \<longrightarrow> files w' x = files w x"
      using store_file_frame[OF store] w1 w' by simp
    have C: "\<exists>k<5. \<exists>body n. respond e (net w @ replicate k oid) oid = Ok_response body \<and>
               files w' oid = Some (take n body)" if "files w' oid \<noteq> None"
    proof -
      from loop Got have "retry_loop e oid [0..<5] w = (Got body, w1)" by simp
      from retry_loop_got[OF this] obtain k where
        k: "k < 5" "respond e (net w @ replicate k oid) oid = Ok_response body" by auto
      from store_file_content[OF store] that w1 w' absent
      obtain n where "files w' oid = Some (take n body)" by auto
      with k show ?thesis by blast
    qed
    from A B C show ?thesis by blast
  qed
qed

theorem failed_leaves_cache_witness:
  "fst (save_html flaky ''C'' cached_A) \<noteq> Saved \<and>
   files (snd (save_html flaky ''C'' cached_A)) = files cached_A \<and>
   files (snd (save_html flaky ''C'' cached_A)) ''C'' = None"
proof -
  obtain r w' where run: "save_html flaky ''C'' cached_A = (r, w')"
    by (cases "save_html flaky ''C'' cached_A")
  have absent: "files cached_A ''C'' = None"
    by (simp add: cached_A_def)
  have disk: "\<forall>m n. disk flaky (writes cached_A) ''C'' \<noteq> Store_broken m n"
    by (simp add: flaky_def)
  have "fst (save_html flaky ''C'' cached_A) = Failed_after_retries"
    by code_simp
  with run have "r \<noteq> Saved" by simp
  with failed_leaves_cache[OF absent run] disk have "files w' = files cached_A" by blast
  with run \<open>r \<noteq> Saved\<close> absent show ?thesis by simp
qed

text \<open>On a full disk the fetched page of \<open>B\<close> cannot be written: the worker reports a
  crash, and an empty file for \<open>B\<close> is left in the cache.\<close>

theorem failed_leaves_cache_counterexample:
  "files fresh ''B'' = None \<and>
   fst (save_html disk_full ''B'' fresh) = Crash ''No space left on device'' \<and>
   files (snd (save_html disk_full ''B'' fresh)) ''B'' = Some []"
  by code_simp

section \<open>Steps of the pool\<close>

lemma run_pool_invariant:
  assumes "I p" and "\<And>p i. I p \<Longrightarrow> I (pool_step e mw i p)"
  shows "I (run_pool e mw sched p)"
  using assms(1) unfolding run_pool_def
proof (induction sched arbitrary: p)
  case Nil
  then show ?case by simp
next
  case (Cons i sched)
  from Cons.prems have "I (pool_step e mw i p)" by (rule assms(2))
  from Cons.IH[OF this] show ?case by simp
qed

lemma pool_step_cases:
  obtains (idle) "pool_step e mw i p = p"
  | (move) oid c c' w' where "i < length (tasks p)" "tasks p ! i = (oid, c)" "\<not> is_done c"
      "task_step e oid (c, shared p) = (c', w')"
      "pool_step e mw i p =
         p\<lparr>tasks := (tasks p)[i := (oid, c')], finished := finished p @ completion oid c',
           shared := w'\<rparr>"
proof (cases "pool_step e mw i p = p")
  case True
  then show ?thesis by (rule idle)
next
  case False
  have i: "i < length (tasks p)"
  proof (rule ccontr)
    assume "\<not> i < length (tasks p)"
    then have "pool_step e mw i p = p" by (simp add: pool_step_def)
    with False show False by simp
  qed
  obtain oid c where t: "tasks p ! i = (oid, c)" by (cases "tasks p ! i")
  obtain c' w' where s: "task_step e oid (c, shared p) = (c', w')"
    by (cases "task_step e oid (c, shared p)")
  have nd: "\<not> is_done c"
  proof
    assume "is_done c"
    with i t have "pool_step e mw i p = p" by (simp add: pool_step_def)
    with False show False by simp
  qed
  have "\<not> (c = Queued \<and> \<not> can_start mw (tasks p) i)"
  proof
    assume "c = Queued \<and> \<not> can_start mw (tasks p) i"
    with i t have "pool_step e mw i p = p" by (simp add: pool_step_def)
    with False show False by simp
  qed
  with i t s nd have "pool_step e mw i p =
         p\<lparr>tasks := (tasks p)[i := (oid, c')], finished := finished p @ completion oid c',
           shared := w'\<rparr>"
    by (auto simp: pool_step_def)
  with i t nd s show ?thesis by (rule move)
qed

lemma task_step_files_other:
  "task_step e oid (c, w) = (c', w') \<Longrightarrow> x \<noteq> oid \<Longrightarrow> files w' x = files w x"
  by (induction e oid "(c, w)" rule: task_step.induct)
     (auto simp: log_result_def session_get_def after_failed_attempt_def store_file_def
        courtesy_sleep_def Let_def split: if_splits response.splits store_result.splits)

lemma task_step_files_mono:
  "task_step e oid (c, w) = (c', w') \<Longrightarrow> files w x \<noteq> None \<Longrightarrow> files w' x \<noteq> None"
  by (induction e oid "(c, w)" rule: task_step.induct)
     (auto simp: log_result_def session_get_def after_failed_attempt_def store_file_def
        courtesy_sleep_def Let_def split: if_splits response.splits store_result.splits)

lemma task_step_files_writer:
  "task_step e oid (c, w) = (c', w') \<Longrightarrow> (\<forall>body. c \<noteq> Store body) \<Longrightarrow> files w' = files w"
  by (induction e oid "(c, w)" rule: task_step.induct)
     (auto simp: log_result_def session_get_def after_failed_attempt_def
        split: if_splits response.splits)

lemma task_step_writer:
  "task_step e oid (c, w) = (c', w') \<Longrightarrow> writer c' \<Longrightarrow>
     writer c \<or> (c = Check \<and> files w oid = None)"
  by (induction e oid "(c, w)" rule: task_step.induct)
     (auto split: if_splits)

lemma task_step_net:
  "task_step e oid (c, w) = (c', w') \<Longrightarrow>
     net w' = net w \<or> (\<exists>a rest. c = Fetch (a # rest) \<and> net w' = net w @ [oid])"
  by (induction e oid "(c, w)" rule: task_step.induct)
     (auto simp: log_result_def session_get_def after_failed_attempt_def store_file_def
        courtesy_sleep_def Let_def split: if_splits response.splits store_result.splits)

lemma task_step_log:
  "task_step e oid (c, w) = (c', w') \<Longrightarrow> \<not> is_done c \<Longrightarrow>
     log w' = log w @ concat (map logged (completion oid c'))"
  by (induction e oid "(c, w)" rule: task_step.induct)
     (auto simp: log_result_def session_get_def after_failed_attempt_def store_file_def
        courtesy_sleep_def completion_def Let_def
        split: if_splits response.splits store_result.splits)

lemma task_step_untouched:
  "task_step e oid (c, w) = (c', w') \<Longrightarrow> untouched c \<Longrightarrow> files w oid \<noteq> None \<Longrightarrow>
     untouched c' \<and> w' = w"
  by (induction e oid "(c, w)" rule: task_step.induct) (auto split: if_splits)

section \<open>A task run alone is a call of save_html\<close>

lemma run_task_0: "run_task e oid 0 s = s"
  by (simp add: run_task_def)

lemma run_task_Suc: "run_task e oid (Suc n) s = run_task e oid n (task_step e oid s)"
  by (simp add: run_task_def funpow_swap1)

lemma run_task_done: "run_task e oid n (Done r, w) = (Done r, w)"
  by (induction n) (simp_all add: run_task_0 run_task_Suc)

lemma run_task_log_ok:
  "run_task e oid (Suc n) (Log_ok, w) = (Done Saved, log_result oid True [] w)"
  by (simp add: run_task_Suc run_task_done)

lemma run_task_log_crash:
  "run_task e oid (Suc n) (Log_crash m, w) = (Done (Crash m), log_result oid False m w)"
  by (simp add: run_task_Suc run_task_done)

lemma save_html_conclude:
  "save_html e oid w =
     (if files w oid \<noteq> None then (Already_saved, w)
      else conclude e oid (retry_loop e oid [0..<5] w))"
  by (simp add: save_html_def conclude_def)

lemma run_task_store:
  "run_task e oid (Suc (Suc n)) (Store body, w) =
     map_prod Done id (conclude e oid (Got body, w))"
proof (cases "store_file e oid body w")
  case (Pair s w2)
  then show ?thesis
    by (cases s) (simp_all add: run_task_Suc[of _ _ "Suc n"] run_task_log_ok run_task_log_crash
        conclude_def)
qed

lemma run_task_fetch:
  "run_task e oid (length atts + 2 + n) (Fetch atts, w) =
     map_prod Done id (conclude e oid (retry_loop e oid atts w))"
proof (induction atts arbitrary: w)
  case Nil
  show ?case by (simp add: run_task_Suc run_task_done conclude_def)
next
  case (Cons a atts)
  let ?w1 = "w\<lparr>net := net w @ [oid]\<rparr>"
  have len: "length (a # atts) + 2 + n = Suc (length atts + 2 + n)" by simp
  have len2: "length atts + 2 + n = Suc (Suc (length atts + n))" by simp
  show ?case
  proof (cases "respond e (net w) oid")
    case (Ok_response body)
    then have step: "task_step e oid (Fetch (a # atts), w) = (Store body, ?w1)"
      and loop: "retry_loop e oid (a # atts) w = (Got body, ?w1)"
      by (simp_all add: session_get_def)
    have "run_task e oid (length (a # atts) + 2 + n) (Fetch (a # atts), w) =
        run_task e oid (Suc (Suc (length atts + n))) (Store body, ?w1)"
      by (simp only: len run_task_Suc step len2)
    then show ?thesis by (simp only: run_task_store loop)
  next
    case (Request_exception m)
    let ?w2 = "after_failed_attempt oid a m ?w1"
    from Request_exception have step: "task_step e oid (Fetch (a # atts), w) = (Fetch atts, ?w2)"
      and loop: "retry_loop e oid (a # atts) w = retry_loop e oid atts ?w2"
      by (simp_all add: session_get_def)
    have "run_task e oid (length (a # atts) + 2 + n) (Fetch (a # atts), w) =
        run_task e oid (length atts + 2 + n) (Fetch atts, ?w2)"
      by (simp only: len run_task_Suc step)
    then show ?thesis by (simp only: Cons.IH loop)
  next
    case (Other_exception m)
    then have step: "task_step e oid (Fetch (a # atts), w) = (Log_crash m, ?w1)"
      and loop: "retry_loop e oid (a # atts) w = (Raised m, ?w1)"
      by (simp_all add: session_get_def)
    have "run_task e oid (length (a # atts) + 2 + n) (Fetch (a # atts), w) =
        run_task e oid (Suc (Suc (length atts + n))) (Log_crash m, ?w1)"
      by (simp only: len run_task_Suc step len2)
    then show ?thesis by (simp only: run_task_log_crash loop) (simp add: conclude_def)
  qed
qed

lemma task_refines_save_html:
  "run_task e oid (9 + n) (Queued, w) = map_prod Done id (save_html e oid w)"
proof -
  have nine: "9 + n = Suc (Suc (length [0..<5::nat] + 2 + n))" by simp
  have start: "task_step e oid (Queued, w) = (Check, w)" by simp
  show ?thesis
  proof (cases "files w oid")
    case None
    then have check: "task_step e oid (Check, w) = (Fetch [0..<5], w)" by simp
    have "run_task e oid (9 + n) (Queued, w) =
        run_task e oid (length [0..<5::nat] + 2 + n) (Fetch [0..<5], w)"
      by (simp only: nine run_task_Suc start check)
    with None show ?thesis by (simp only: run_task_fetch save_html_conclude) simp
  next
    case (Some b)
    then have check: "task_step e oid (Check, w) = (Done Already_saved, w)" by simp
    have "run_task e oid (9 + n) (Queued, w) =
        run_task e oid (length [0..<5::nat] + 2 + n) (Done Already_saved, w)"
      by (simp only: nine run_task_Suc start check)
    with Some show ?thesis by (simp only: run_task_done save_html_conclude) simp
  qed
qed

lemma task_step_not_queued: "fst (task_step e oid (c, w)) \<noteq> Queued"
  by (induction e oid "(c, w)" rule: task_step.induct)
     (auto simp: session_get_def split: response.splits prod.splits sum.splits)

section \<open>The sequential schedule completes every run\<close>

lemma run_pool_Cons: "run_pool e mw (i # sched) p = run_pool e mw sched (pool_step e mw i p)"
  by (simp add: run_pool_def)

lemma run_pool_append:
  "run_pool e mw (xs @ ys) p = run_pool e mw ys (run_pool e mw xs p)"
  by (simp add: run_pool_def)

lemma pool_step_started:
  assumes "i < length (tasks p)" "tasks p ! i = (oid, c)" "c \<noteq> Queued"
  shows "tasks (pool_step e mw i p) = (tasks p)[i := (oid, fst (task_step e oid (c, shared p)))]"
    and "shared (pool_step e mw i p) = snd (task_step e oid (c, shared p))"
proof -
  show "tasks (pool_step e mw i p) = (tasks p)[i := (oid, fst (task_step e oid (c, shared p)))]"
  proof (cases c)
    case (Done r)
    with assms(1,2) have "pool_step e mw i p = p" by (simp add: pool_step_def)
    moreover have "(tasks p)[i := (oid, c)] = tasks p" using assms(2) by (metis list_update_id)
    ultimately show ?thesis using Done by simp
  qed (use assms in \<open>simp_all add: pool_step_def case_prod_unfold Let_def\<close>)
  show "shared (pool_step e mw i p) = snd (task_step e oid (c, shared p))"
    using assms by (cases c) (simp_all add: pool_step_def case_prod_unfold Let_def)
qed

lemma run_single:
  assumes "i < length (tasks p)" "tasks p ! i = (oid, c)" "c \<noteq> Queued"
  shows "tasks (run_pool e mw (replicate n i) p) =
           (tasks p)[i := (oid, fst (run_task e oid n (c, shared p)))] \<and>
         shared (run_pool e mw (replicate n i) p) = snd (run_task e oid n (c, shared p))"
  using assms
proof (induction n arbitrary: p c)
  case 0
  then show ?case by (simp add: run_pool_def run_task_0) (metis list_update_id)
next
  case (Suc n)
  let ?p = "pool_step e mw i p"
  let ?c = "fst (task_step e oid (c, shared p))"
  note st = pool_step_started[OF Suc.prems, of e mw]
  have 1: "i < length (tasks ?p)" using st(1) Suc.prems(1) by simp
  have 2: "tasks ?p ! i = (oid, ?c)" using st(1) Suc.prems(1) by simp
  have 3: "?c \<noteq> Queued" by (rule task_step_not_queued)
  have "(?c, shared ?p) = task_step e oid (c, shared p)" using st(2) by simp
  then have "run_task e oid n (?c, shared ?p) = run_task e oid (Suc n) (c, shared p)"
    by (simp add: run_task_Suc)
  with Suc.IH[OF 1 2 3] st(1) show ?case
    by (simp add: run_pool_Cons)
qed

lemma lined_up_can_start:
  assumes "lined_up k p" "0 < mw"
  shows "can_start mw (tasks p) k"
proof -
  have "snd t \<noteq> Queued" if "t \<in> set (take k (tasks p))" for t
  proof -
    from that obtain j where "j < length (take k (tasks p))" "take k (tasks p) ! j = t"
      by (auto simp: in_set_conv_nth)
    then have "j < k" "j < length (tasks p)" "tasks p ! j = t" by simp_all
    with assms(1) have "is_done (snd t)" by (auto simp: lined_up_def)
    then show ?thesis by (cases "snd t") simp_all
  qed
  moreover have "\<not> running t" if "t \<in> set (tasks p)" for t
  proof -
    from that obtain j where "j < length (tasks p)" "tasks p ! j = t"
      by (auto simp: in_set_conv_nth)
    with assms(1) have "is_done (snd t) \<or> snd t = Queued"
      by (auto simp: lined_up_def split: if_splits)
    then show ?thesis by (auto simp: running_def)
  qed
  then have "filter running (tasks p) = []" by (simp add: filter_empty_conv)
  ultimately show ?thesis using assms(2) by (simp add: can_start_def list_all_iff)
qed

lemma lined_up_step:
  assumes l: "lined_up k p" and k: "k < length (tasks p)" and mw: "0 < mw"
  shows "lined_up (Suc k) (run_pool e mw (replicate 9 k) p) \<and>
         length (tasks (run_pool e mw (replicate 9 k) p)) = length (tasks p)"
proof -
  obtain oid c where t: "tasks p ! k = (oid, c)" by (cases "tasks p ! k")
  from l k t have c: "c = Queued" by (auto simp: lined_up_def)
  let ?p = "pool_step e mw k p"
  from lined_up_can_start[OF l mw] k t c
  have p1: "tasks ?p = (tasks p)[k := (oid, Check)]" "shared ?p = shared p"
    by (simp_all add: pool_step_def)
  have 1: "k < length (tasks ?p)" and 2: "tasks ?p ! k = (oid, Check)" using p1 k by simp_all
  have nine: "replicate 9 k = k # replicate 8 k" by (simp add: numeral_eq_Suc)
  have "run_task e oid (9 + 0) (Queued, shared p) = map_prod Done id (save_html e oid (shared p))"
    by (rule task_refines_save_html)
  moreover have "run_task e oid (9 + 0) (Queued, shared p) = run_task e oid 8 (Check, shared p)"
    by (simp add: numeral_eq_Suc run_task_Suc)
  ultimately have "run_task e oid 8 (Check, shared p) =
      map_prod Done id (save_html e oid (shared p))"
    by simp
  then have d: "is_done (fst (run_task e oid 8 (Check, shared ?p)))"
    by (simp add: p1)
  from run_single[OF 1 2, of e mw 8] p1
  have ts: "tasks (run_pool e mw (replicate 9 k) p) =
      (tasks p)[k := (oid, fst (run_task e oid 8 (Check, shared ?p)))]"
    by (simp add: nine run_pool_Cons)
  have "lined_up (Suc k) (run_pool e mw (replicate 9 k) p)"
    unfolding lined_up_def ts
  proof (intro allI impI)
    fix j assume j: "j < length ((tasks p)[k := (oid, fst (run_task e oid 8 (Check, shared ?p)))])"
    show "if j < Suc k
        then is_done (snd ((tasks p)[k := (oid, fst (run_task e oid 8 (Check, shared ?p)))] ! j))
        else snd ((tasks p)[k := (oid, fst (run_task e oid 8 (Check, shared ?p)))] ! j) = Queued"
    proof (cases "j = k")
      case True
      with k d show ?thesis by simp
    next
      case False
      with l j show ?thesis by (auto simp: lined_up_def split: if_splits)
    qed
  qed
  with ts show ?thesis by simp
qed

lemma sequential_Suc: "sequential (Suc n) = sequential n @ replicate 9 n"
  by (simp add: sequential_def)

lemma lined_up_sequential:
  assumes "lined_up 0 p" "0 < mw" "k \<le> length (tasks p)"
  shows "lined_up k (run_pool e mw (sequential k) p) \<and>
         length (tasks (run_pool e mw (sequential k) p)) = length (tasks p)"
  using assms(3)
proof (induction k)
  case 0
  with assms(1) show ?case by (simp add: sequential_def run_pool_def)
next
  case (Suc k)
  let ?p = "run_pool e mw (sequential k) p"
  from Suc have l: "lined_up k ?p" and len: "length (tasks ?p) = length (tasks p)" by simp_all
  from Suc.prems len have "k < length (tasks ?p)" by simp
  from lined_up_step[OF l this assms(2), of e] len show ?case
    by (simp add: sequential_Suc run_pool_append)
qed

lemma download_returns:
  assumes "0 < mw"
  shows "\<exists>outs w'. download_with_eta e mw (sequential (length ids)) w ids = Some (Inr (outs, w'))"
proof -
  let ?p0 = "submit_all ids w"
  have "lined_up 0 ?p0" by (simp add: lined_up_def submit_all_def)
  moreover have "length ids \<le> length (tasks ?p0)" by (simp add: submit_all_def)
  ultimately have l: "lined_up (length ids) (run_pool e mw (sequential (length ids)) ?p0)"
    and len: "length (tasks (run_pool e mw (sequential (length ids)) ?p0)) = length (tasks ?p0)"
    using lined_up_sequential[of ?p0 mw "length ids" e] assms by simp_all
  have "length (tasks ?p0) = length ids" by (simp add: submit_all_def)
  with l len have "all_done (run_pool e mw (sequential (length ids)) ?p0)"
    by (auto simp: all_done_def lined_up_def list_all_length)
  with assms show ?thesis by (simp add: download_with_eta_def Let_def)
qed

lemma example_returns:
  "\<exists>outs w'. download_with_eta e 8 (sequential 3) w [''A'', ''B'', ''C''] = Some (Inr (outs, w'))"
  using download_returns[of 8 e "[''A'', ''B'', ''C'']" w] by (simp add: numeral_3_eq_3)

lemma two_items_return:
  "0 < mw \<Longrightarrow>
     \<exists>outs w'. download_with_eta e mw (sequential 2) w [''A'', ''B''] = Some (Inr (outs, w'))"
  using download_returns[of mw e "[''A'', ''B'']" w] by (simp add: numeral_2_eq_2)

lemma example_outcomes:
  "outcomes (download_with_eta flaky 8 (sequential 3) cached_A [''A'', ''B'', ''C'']) =
     Some [(''A'', Already_saved), (''B'', Saved), (''C'', Failed_after_retries)]"
  by code_simp

lemma first_run_outcomes:
  "outcomes (download_with_eta flaky 8 (sequential 2) cached_A [''A'', ''B'']) =
     Some [(''A'', Already_saved), (''B'', Saved)]"
  by code_simp

section \<open>Properties of the scheduler\<close>

lemma in_set_updateD: "t \<in> set (ts[i := u]) \<Longrightarrow> t \<in> set ts \<or> t = u"
  using set_update_subset_insert[of ts i u] by auto

lemma keeps_step: "keeps w0 p \<Longrightarrow> keeps w0 (pool_step e mw i p)"
proof (cases e mw i p rule: pool_step_cases)
  case idle
  assume "keeps w0 p"
  with idle show ?thesis by simp
next
  case (move oid c c' w')
  assume inv: "keeps w0 p"
  from move(1,2) have mem: "(oid, c) \<in> set (tasks p)" by (metis nth_mem)
  have old: "files w' x = Some b" if x: "files w0 x = Some b" for x b
  proof (cases "\<exists>body. c = Store body")
    case True
    then have "writer c" by auto
    with inv mem have "files w0 oid = None" by (auto simp: keeps_def)
    with x have "x \<noteq> oid" by auto
    from task_step_files_other[OF move(4) this] inv x show ?thesis by (simp add: keeps_def)
  next
    case False
    then have "files w' = files (shared p)" using task_step_files_writer[OF move(4)] by blast
    with inv x show ?thesis by (simp add: keeps_def)
  qed
  have new: "files w0 (fst t) = None" if t: "t \<in> set ((tasks p)[i := (oid, c')])" "writer (snd t)" for t
  proof -
    from in_set_updateD[OF t(1)] consider "t \<in> set (tasks p)" | "t = (oid, c')" by blast
    then show ?thesis
    proof cases
      case 1
      with inv t(2) show ?thesis by (auto simp: keeps_def)
    next
      case 2
      with t(2) have "writer c'" by simp
      from task_step_writer[OF move(4) this]
      consider "writer c" | "c = Check" "files (shared p) oid = None" by auto
      then show ?thesis
      proof cases
        case 1
        with inv mem 2 show ?thesis by (auto simp: keeps_def)
      next
        case 2
        have "files w0 oid = None"
        proof (cases "files w0 oid")
          case None
          then show ?thesis .
        next
          case (Some b)
          with inv have "files (shared p) oid = Some b" by (simp add: keeps_def)
          with 2 show ?thesis by simp
        qed
        with \<open>t = (oid, c')\<close> show ?thesis by simp
      qed
    qed
  qed
  from old new show ?thesis by (simp add: keeps_def move(5))
qed

lemma keeps_submit: "keeps w (submit_all ids w)"
  by (auto simp: keeps_def submit_all_def)

lemma keeps_run: "keeps w (run_pool e mw sched (submit_all ids w))"
  by (rule run_pool_invariant[where I = "keeps w"]) (simp_all add: keeps_submit keeps_step)

lemma log_inv_step: "log_inv w0 p \<Longrightarrow> log_inv w0 (pool_step e mw i p)"
proof (cases e mw i p rule: pool_step_cases)
  case idle
  assume "log_inv w0 p"
  with idle show ?thesis by simp
next
  case (move oid c c' w')
  assume "log_inv w0 p"
  with task_step_log[OF move(4,3)] show ?thesis by (simp add: log_inv_def move(5))
qed

lemma log_inv_run: "log_inv w (run_pool e mw sched (submit_all ids w))"
  by (rule run_pool_invariant[where I = "log_inv w"])
     (simp_all add: log_inv_step, simp add: log_inv_def submit_all_def)

lemma results_of_update:
  assumes "i < length ts" "ts ! i = (oid, c)" "\<not> is_done c"
  shows "mset (results_of (ts[i := (oid, c')])) = mset (results_of ts) + mset (completion oid c')"
proof -
  have c: "completion oid c = []" using assms(3) by (cases c) (simp_all add: completion_def)
  have ts: "ts = take i ts @ (oid, c) # drop (Suc i) ts"
    using assms(1,2) by (metis id_take_nth_drop)
  have "ts[i := (oid, c')] = take i ts @ (oid, c') # drop (Suc i) ts"
    using assms(1) by (simp add: upd_conv_take_nth_drop)
  then have "results_of (ts[i := (oid, c')]) =
     results_of (take i ts) @ completion oid c' @ results_of (drop (Suc i) ts)"
    by (simp add: results_of_def)
  moreover have "results_of ts = results_of (take i ts) @ results_of (drop (Suc i) ts)"
    by (subst ts) (simp add: results_of_def c)
  ultimately show ?thesis by simp
qed

lemma tally_step: "tally ids p \<Longrightarrow> tally ids (pool_step e mw i p)"
proof (cases e mw i p rule: pool_step_cases)
  case idle
  assume "tally ids p"
  with idle show ?thesis by simp
next
  case (move oid c c' w')
  assume inv: "tally ids p"
  have "map fst ((tasks p)[i := (oid, c')]) = map fst (tasks p)"
    using move(1,2) by (simp add: map_update) (metis fst_conv list_update_id map_update)
  with inv results_of_update[OF move(1,2,3)] show ?thesis
    by (simp add: tally_def move(5))
qed

lemma tally_run: "tally ids (run_pool e mw sched (submit_all ids w))"
proof (rule run_pool_invariant[where I = "tally ids"])
  have "results_of (map (\<lambda>oid. (oid, Queued)) ids) = []"
    by (induction ids) (simp_all add: results_of_def completion_def)
  then show "tally ids (submit_all ids w)"
    by (simp add: tally_def submit_all_def comp_def)
qed (rule tally_step)

lemma results_of_all_done:
  "list_all (\<lambda>t. is_done (snd t)) ts \<Longrightarrow> map fst (results_of ts) = map fst ts"
proof (induction ts)
  case Nil
  then show ?case by (simp add: results_of_def)
next
  case (Cons t ts)
  obtain oid c where t: "t = (oid, c)" by (cases t)
  from Cons.prems t obtain r where "c = Done r" by (cases c) simp_all
  with Cons t show ?case by (simp add: results_of_def completion_def)
qed

lemma download_returned:
  assumes "download_with_eta e mw sched w ids = Some (Inr (outs, w'))"
  shows "0 < mw" "all_done (run_pool e mw sched (submit_all ids w))"
    "outs = finished (run_pool e mw sched (submit_all ids w))"
    "w' = shared (run_pool e mw sched (submit_all ids w))"
  using assms by (auto simp: download_with_eta_def Let_def split: if_splits)

lemma download_outcomes:
  assumes "download_with_eta e mw sched w ids = Some (Inr (outs, w'))"
  shows "mset (map fst outs) = mset ids"
proof -
  let ?p = "run_pool e mw sched (submit_all ids w)"
  from tally_run[of ids e mw sched w]
  have t: "map fst (tasks ?p) = ids" "mset (finished ?p) = mset (results_of (tasks ?p))"
    by (simp_all add: tally_def)
  from download_returned(2)[OF assms] have "map fst (results_of (tasks ?p)) = map fst (tasks ?p)"
    by (simp add: all_done_def results_of_all_done)
  with t have "mset (map fst (finished ?p)) = mset ids"
    by (metis mset_map)
  with download_returned(3)[OF assms] show ?thesis by simp
qed

lemma untouched_completion:
  "untouched c \<Longrightarrow> (y, r) \<in> set (completion oid c) \<Longrightarrow> r = Already_saved"
  by (cases c rule: untouched.cases) (simp_all add: completion_def)

lemma completion_fst: "(y, r) \<in> set (completion oid c) \<Longrightarrow> y = oid"
  by (cases c) (simp_all add: completion_def)

lemma skips_step: "skips w0 x p \<Longrightarrow> skips w0 x (pool_step e mw i p)"
proof (cases e mw i p rule: pool_step_cases)
  case idle
  assume "skips w0 x p"
  with idle show ?thesis by simp
next
  case (move oid c c' w')
  assume inv: "skips w0 x p"
  from move(1,2) have mem: "(oid, c) \<in> set (tasks p)" by (metis nth_mem)
  show ?thesis
  proof (cases "oid = x")
    case True
    with inv mem have "untouched c" "files (shared p) oid \<noteq> None" by (auto simp: skips_def)
    from task_step_untouched[OF move(4) this] have c': "untouched c'" "w' = shared p" by simp_all
    have "\<forall>t\<in>set ((tasks p)[i := (oid, c')]). fst t = x \<longrightarrow> untouched (snd t)"
      using inv c'(1) by (auto simp: skips_def dest!: in_set_updateD)
    moreover have "\<forall>r. (x, r) \<in> set (finished p @ completion oid c') \<longrightarrow> r = Already_saved"
      using inv untouched_completion[OF c'(1)] by (auto simp: skips_def)
    ultimately show ?thesis using inv c'(2) by (simp add: skips_def move(5))
  next
    case False
    have "files w' x \<noteq> None"
      using task_step_files_mono[OF move(4)] inv by (simp add: skips_def)
    moreover have "filter (\<lambda>y. y = x) (net w') = filter (\<lambda>y. y = x) (net w0)"
      using task_step_net[OF move(4)] inv False by (auto simp: skips_def)
    moreover have "\<forall>t\<in>set ((tasks p)[i := (oid, c')]). fst t = x \<longrightarrow> untouched (snd t)"
      using inv False by (auto simp: skips_def dest!: in_set_updateD)
    moreover have "\<forall>r. (x, r) \<in> set (finished p @ completion oid c') \<longrightarrow> r = Already_saved"
      using inv False by (auto simp: skips_def dest: completion_fst)
    ultimately show ?thesis by (simp add: skips_def move(5))
  qed
qed

lemma skips_run:
  "files w x \<noteq> None \<Longrightarrow> skips w x (run_pool e mw sched (submit_all ids w))"
  by (rule run_pool_invariant[where I = "skips w x"])
     (simp_all add: skips_step, simp add: skips_def submit_all_def)

text \<open>
  C2, as the code has it. Every item, cached or not, is submitted to the pool and waits
  in its queue; the cache test is the first thing the worker does with it. An item that
  is cached when the run starts is then reported as \<^verbatim>\<open>Already saved\<close> and no request is
  sent for it.
\<close>

theorem cached_item_skipped_by_worker:
  assumes cached: "files w x \<noteq> None"
    and run: "download_with_eta e mw sched w ids = Some (Inr (outs, w'))"
  shows "map snd (tasks (submit_all ids w)) = replicate (length ids) Queued \<and>
         filter (\<lambda>y. y = x) (net w') = filter (\<lambda>y. y = x) (net w) \<and>
         (\<forall>r. (x, r) \<in> set outs \<longrightarrow> r = Already_saved) \<and>
         (x \<in> set ids \<longrightarrow> (x, Already_saved) \<in> set outs)"
proof -
  from skips_run[OF cached, of e mw sched ids] download_returned(3,4)[OF run]
  have a: "filter (\<lambda>y. y = x) (net w') = filter (\<lambda>y. y = x) (net w)"
    and b: "\<forall>r. (x, r) \<in> set outs \<longrightarrow> r = Already_saved"
    by (simp_all add: skips_def)
  have c: "(x, Already_saved) \<in> set outs" if "x \<in> set ids"
  proof -
    from download_outcomes[OF run] that have "x \<in> set (map fst outs)"
      by (metis mset_eq_setD)
    then obtain r where "(x, r) \<in> set outs" by auto
    with b show ?thesis by auto
  qed
  have "map snd (tasks (submit_all ids w)) = replicate (length ids) Queued"
    by (simp add: submit_all_def comp_def map_replicate_const)
  with a b c show ?thesis by blast
qed

theorem cached_item_skipped_by_worker_witness:
  "case download_with_eta flaky 8 (sequential 3) cached_A [''A'', ''B'', ''C''] of
     Some (Inr (outs, w')) \<Rightarrow>
       filter (\<lambda>y. y = ''A'') (net w') = [] \<and> (''A'', Already_saved) \<in> set outs
   | _ \<Rightarrow> False"
proof -
  obtain outs w' where
    run: "download_with_eta flaky 8 (sequential 3) cached_A [''A'', ''B'', ''C''] = Some (Inr (outs, w'))"
    using example_returns[of flaky cached_A] by blast
  have cached: "files cached_A ''A'' \<noteq> None" by (simp add: cached_A_def)
  from cached_item_skipped_by_worker[OF cached run] run show ?thesis
    by (simp add: cached_A_def)
qed

text \<open>With one worker and the cached \<open>A\<close> submitted after \<open>B\<close>: \<open>A\<close> is a queued task, and
  while the worker is busy with \<open>B\<close> choosing \<open>A\<close> leaves it queued, with nothing reported.\<close>

theorem cached_item_counterexample:
  "files cached_A ''A'' = Some ''old page A'' \<and>
   tasks (submit_all [''B'', ''A''] cached_A) = [(''B'', Queued), (''A'', Queued)] \<and>
   tasks (run_pool flaky 1 [0, 0, 1, 1, 1] (submit_all [''B'', ''A''] cached_A)) =
     [(''B'', Fetch [0, 1, 2, 3, 4]), (''A'', Queued)] \<and>
   finished (run_pool flaky 1 [0, 0, 1, 1, 1] (submit_all [''B'', ''A''] cached_A)) = []"
  by code_simp

lemma quiet_step: "quiet w0 p \<Longrightarrow> quiet w0 (pool_step e mw i p)"
proof (cases e mw i p rule: pool_step_cases)
  case idle
  assume "quiet w0 p"
  with idle show ?thesis by simp
next
  case (move oid c c' w')
  assume inv: "quiet w0 p"
  from move(1,2) have mem: "(oid, c) \<in> set (tasks p)" by (metis nth_mem)
  with inv have "untouched c" "files (shared p) oid \<noteq> None" by (auto simp: quiet_def)
  from task_step_untouched[OF move(4) this] have c': "untouched c'" "w' = shared p" by simp_all
  have "\<forall>t\<in>set ((tasks p)[i := (oid, c')]). files w0 (fst t) \<noteq> None \<and> untouched (snd t)"
    using inv c'(1) mem by (auto simp: quiet_def dest!: in_set_updateD)
  moreover have "\<forall>d\<in>set (finished p @ completion oid c'). snd d = Already_saved"
    using inv untouched_completion[OF c'(1)] by (auto simp: quiet_def)
  ultimately show ?thesis using inv c'(2) by (simp add: quiet_def move(5))
qed

lemma quiet_run:
  "\<forall>x\<in>set ids. files w x \<noteq> None \<Longrightarrow> quiet w (run_pool e mw sched (submit_all ids w))"
  by (rule run_pool_invariant[where I = "quiet w"])
     (simp_all add: quiet_step, simp add: quiet_def submit_all_def)

lemma task_step_stored:
  "task_step e oid (c, w) = (c', w') \<Longrightarrow> \<not> is_done c \<Longrightarrow>
     c' = Log_ok \<or> c' = Done Saved \<or> c' = Done Already_saved \<Longrightarrow>
     (c = Log_ok \<longrightarrow> files w oid \<noteq> None) \<Longrightarrow> files w' oid \<noteq> None"
  by (induction e oid "(c, w)" rule: task_step.induct)
     (auto simp: log_result_def session_get_def after_failed_attempt_def store_file_def
        courtesy_sleep_def Let_def split: if_splits response.splits store_result.splits)

lemma stored_step: "stored p \<Longrightarrow> stored (pool_step e mw i p)"
proof (cases e mw i p rule: pool_step_cases)
  case idle
  assume "stored p"
  with idle show ?thesis by simp
next
  case (move oid c c' w')
  assume inv: "stored p"
  from move(1,2) have mem: "(oid, c) \<in> set (tasks p)" by (metis nth_mem)
  with inv have own: "c = Log_ok \<longrightarrow> files (shared p) oid \<noteq> None" by (auto simp: stored_def)
  note mono = task_step_files_mono[OF move(4)]
  note new = task_step_stored[OF move(4,3) _ own]
  have "files w' (fst t) \<noteq> None" if "t \<in> set ((tasks p)[i := (oid, c')])" "snd t = Log_ok" for t
    using in_set_updateD[OF that(1)] that(2) inv mono new by (auto simp: stored_def)
  moreover have "files w' (fst d) \<noteq> None"
    if "d \<in> set (finished p @ completion oid c')" "snd d = Saved \<or> snd d = Already_saved" for d
  proof (cases "d \<in> set (finished p)")
    case True
    with inv that(2) mono show ?thesis by (auto simp: stored_def)
  next
    case False
    with that(1) have "d \<in> set (completion oid c')" by simp
    then have "fst d = oid" "c' = Done (snd d)"
      by (cases c'; simp add: completion_def)+
    with that(2) new show ?thesis by auto
  qed
  ultimately show ?thesis by (simp add: stored_def move(5))
qed

lemma stored_run: "stored (run_pool e mw sched (submit_all ids w))"
  by (rule run_pool_invariant[where I = stored])
     (simp_all add: stored_step, simp add: stored_def submit_all_def)

text \<open>
  C1, as the code has it. A returned run reports one result per submitted item. The log
  is only appended to, and it gains exactly one line for every result other than
  \<^verbatim>\<open>Already saved\<close> (a \<^verbatim>\<open>SUCCESS\<close> line for \<^verbatim>\<open>Saved\<close>, an \<^verbatim>\<open>ERROR\<close> line for a failure)
  and no line for a skipped item.
\<close>

theorem outcome_log_lines:
  assumes run: "download_with_eta e mw sched w ids = Some (Inr (outs, w'))"
  shows "mset (map fst outs) = mset ids \<and>
         mset (log w') = mset (log w) + mset (concat (map logged outs)) \<and>
         take (length (log w)) (log w') = log w \<and>
         length (log w') = length (log w) + length (filter (\<lambda>d. snd d \<noteq> Already_saved) outs)"
proof -
  from log_inv_run[of w e mw sched ids] download_returned(3,4)[OF run]
  have eq: "log w' = log w @ concat (map logged outs)" by (simp add: log_inv_def)
  have "length (concat (map logged os)) = length (filter (\<lambda>d. snd d \<noteq> Already_saved) os)" for os
  proof (induction os)
    case Nil
    show ?case by simp
  next
    case (Cons d os)
    obtain x r where "d = (x, r)" by (cases d)
    with Cons show ?case by (cases r) simp_all
  qed
  with eq download_outcomes[OF run] show ?thesis by simp
qed

theorem outcome_log_lines_witness:
  "case download_with_eta flaky 8 (sequential 3) cached_A [''A'', ''B'', ''C''] of
     Some (Inr (outs, w')) \<Rightarrow>
       outs = [(''A'', Already_saved), (''B'', Saved), (''C'', Failed_after_retries)] \<and>
       length (log w') = length (log cached_A) + 2
   | _ \<Rightarrow> False"
proof -
  obtain outs w' where
    run: "download_with_eta flaky 8 (sequential 3) cached_A [''A'', ''B'', ''C''] = Some (Inr (outs, w'))"
    using example_returns[of flaky cached_A] by blast
  from example_outcomes run
  have outs: "outs = [(''A'', Already_saved), (''B'', Saved), (''C'', Failed_after_retries)]"
    by (simp add: outcomes_def)
  from outcome_log_lines[OF run] outs run show ?thesis by simp
qed

text \<open>The catalog \<open>A, B, C\<close> with \<open>A\<close> cached, \<open>B\<close> served and \<open>C\<close> failing every attempt: three
  results, two log lines.\<close>

theorem outcome_log_counterexample:
  "files cached_A ''A'' = Some ''old page A'' \<and>
   outcomes (download_with_eta flaky 8 (sequential 3) cached_A [''A'', ''B'', ''C'']) =
     Some [(''A'', Already_saved), (''B'', Saved), (''C'', Failed_after_retries)] \<and>
   final_log (download_with_eta flaky 8 (sequential 3) cached_A [''A'', ''B'', ''C'']) =
     Some [''SUCCESS: B '', ''ERROR: C Failed after retries'']"
  by code_simp

lemma task_step_own:
  assumes step: "task_step e x (c, w) = (c', w')" and nd: "\<not> is_done c"
    and ok: "calls_ok c k" and cnt: "count_list (net w) x = n + k"
    and wait: "waiting c \<longrightarrow> files w x = None"
  shows "(\<exists>k'. count_list (net w') x = n + k' \<and> calls_ok c' k') \<and>
     (waiting c' \<longrightarrow> files w' x = None) \<and> c' \<noteq> Done Already_saved"
proof (cases c)
  case Queued
  with step ok cnt wait show ?thesis by (auto simp: waiting_def)
next
  case Check
  with step ok cnt wait show ?thesis by (auto simp: waiting_def)
next
  case (Fetch atts)
  show ?thesis
  proof (cases atts)
    case Nil
    with Fetch step ok cnt show ?thesis by (auto simp: waiting_def log_result_def)
  next
    case (Cons a rest)
    with Fetch ok have k: "k + Suc (length rest) = 5" by simp
    have net: "count_list (net w @ [x]) x = n + Suc k" using cnt by simp
    show ?thesis
    proof (cases "respond e (net w) x")
      case (Ok_response body)
      with Fetch Cons step have "c' = Store body" "net w' = net w @ [x]"
        by (auto simp: session_get_def)
      with net k show ?thesis by (auto simp: waiting_def intro!: exI[of _ "Suc k"])
    next
      case (Request_exception m)
      with Fetch Cons step have "c' = Fetch rest" "net w' = net w @ [x]"
        by (auto simp: session_get_def after_failed_attempt_def)
      with net k show ?thesis by (auto simp: waiting_def intro!: exI[of _ "Suc k"])
    next
      case (Other_exception m)
      with Fetch Cons step have "c' = Log_crash m" "net w' = net w @ [x]"
        by (auto simp: session_get_def)
      with net k show ?thesis by (auto simp: waiting_def intro!: exI[of _ "Suc k"])
    qed
  qed
next
  case (Store body)
  with step have "net w' = net w" "c' = Log_ok \<or> (\<exists>m. c' = Log_crash m)"
    by (auto simp: store_file_def courtesy_sleep_def Let_def split: store_result.splits)
  with Store ok cnt show ?thesis by (auto simp: waiting_def)
next
  case Log_ok
  with step ok cnt show ?thesis by (auto simp: waiting_def log_result_def)
next
  case (Log_crash m)
  with step ok cnt show ?thesis by (auto simp: waiting_def log_result_def)
next
  case (Done r)
  with nd show ?thesis by simp
qed

lemma only_task:
  assumes "distinct (map fst ts)" "i < length ts" "fst (ts ! i) = x"
    "t \<in> set (ts[i := u])" "fst t = x"
  shows "t = u"
proof (rule ccontr)
  assume "t \<noteq> u"
  from assms(4) obtain j where j: "j < length ts" "(ts[i := u]) ! j = t"
    by (auto simp: in_set_conv_nth)
  with \<open>t \<noteq> u\<close> have ne: "j \<noteq> i" by auto
  with j have "ts ! j = t" by simp
  with assms(5) have "map fst ts ! j = x" using j(1) by simp
  moreover have "map fst ts ! i = x" using assms(2,3) by simp
  moreover have "i < length (map fst ts)" "j < length (map fst ts)" using assms(2) j(1) by simp_all
  ultimately have "i = j" using assms(1) by (metis nth_eq_iff_index_eq)
  with ne show False by simp
qed

lemma own_step:
  assumes d: "distinct (map fst (tasks p))" and inv: "own w0 x p"
  shows "own w0 x (pool_step e mw i p)"
proof (cases e mw i p rule: pool_step_cases)
  case idle
  with inv show ?thesis by simp
next
  case (move oid c c' w')
  from move(1,2) have mem: "(oid, c) \<in> set (tasks p)" by (metis nth_mem)
  show ?thesis
  proof (cases "oid = x")
    case True
    from inv mem True obtain k where
      k: "count_list (net (shared p)) x = count_list (net w0) x + k" "calls_ok c k"
      and wait: "waiting c \<longrightarrow> files (shared p) x = None"
      by (auto simp: own_def)
    from move(4) True have "task_step e x (c, shared p) = (c', w')" by simp
    from task_step_own[OF this move(3) k(2) k(1) wait]
    have new: "(\<exists>k'. count_list (net w') x = count_list (net w0) x + k' \<and> calls_ok c' k') \<and>
       (waiting c' \<longrightarrow> files w' x = None) \<and> c' \<noteq> Done Already_saved" .
    have "t = (oid, c')" if "t \<in> set ((tasks p)[i := (oid, c')])" "fst t = x" for t
      using only_task[OF d move(1) _ that] move(2) True by simp
    then have "\<forall>t\<in>set ((tasks p)[i := (oid, c')]). fst t = x \<longrightarrow> snd t = c'"
      by fastforce
    with new show ?thesis by (simp add: own_def move(5))
  next
    case False
    have "count_list (net w') x = count_list (net (shared p)) x"
      using task_step_net[OF move(4)] False by auto
    moreover have "files w' x = files (shared p) x"
      using task_step_files_other[OF move(4), of x] False by simp
    moreover have "t \<in> set (tasks p)" if "t \<in> set ((tasks p)[i := (oid, c')])" "fst t = x" for t
      using in_set_updateD[OF that(1)] that(2) False by auto
    ultimately show ?thesis using inv by (auto simp: own_def move(5))
  qed
qed

lemma own_run:
  assumes "distinct ids" "files w x = None"
  shows "own w x (run_pool e mw sched (submit_all ids w))"
proof -
  have "own_distinct ids w x (run_pool e mw sched (submit_all ids w))"
  proof (rule run_pool_invariant[where I = "own_distinct ids w x"])
    have "tally ids (submit_all ids w)"
      using tally_run[of ids e mw "[]" w] by (simp add: run_pool_def)
    moreover have "own w x (submit_all ids w)"
      using assms(2) by (auto simp: own_def submit_all_def waiting_def)
    ultimately show "own_distinct ids w x (submit_all ids w)" by (simp add: own_distinct_def)
  next
    fix p i assume "own_distinct ids w x p"
    then have t: "tally ids p" and o: "own w x p" by (simp_all add: own_distinct_def)
    from t assms(1) have "distinct (map fst (tasks p))" by (simp add: tally_def)
    from own_step[OF this o] tally_step[OF t]
    show "own_distinct ids w x (pool_step e mw i p)" by (simp add: own_distinct_def)
  qed
  then show ?thesis by (simp add: own_distinct_def)
qed

text \<open>
  C4, as the code has it. When the submitted list has no duplicates, as the list of the
  ID-only discoverer always is, an identifier that is absent from the cache at the start
  gets one result and one attempt sequence, of one to five requests, whatever the number
  of workers and the interleaving.
\<close>

theorem one_attempt_sequence:
  assumes d: "distinct ids" and x: "x \<in> set ids" and absent: "files w x = None"
    and run: "download_with_eta e mw sched w ids = Some (Inr (outs, w'))"
  shows "(\<exists>k. 1 \<le> k \<and> k \<le> 5 \<and> count_list (net w') x = count_list (net w) x + k) \<and>
         count_list (map fst outs) x = 1"
proof -
  let ?p = "run_pool e mw sched (submit_all ids w)"
  from tally_run[of ids e mw sched w] have ids: "map fst (tasks ?p) = ids" by (simp add: tally_def)
  with x have "x \<in> fst ` set (tasks ?p)" by (metis list.set_map)
  then obtain t where t: "t \<in> set (tasks ?p)" "fst t = x" by (auto simp: image_iff)
  from download_returned(2)[OF run] t(1) have "is_done (snd t)"
    by (simp add: all_done_def list_all_iff)
  then obtain r where r: "snd t = Done r" by (cases "snd t") simp_all
  from own_run[OF d absent, of e mw sched] have "own w x ?p" .
  then have "(\<exists>k. count_list (net (shared ?p)) x = count_list (net w) x + k \<and> calls_ok (snd t) k) \<and>
      snd t \<noteq> Done Already_saved"
    unfolding own_def using t by blast
  then obtain k where
    k: "count_list (net (shared ?p)) x = count_list (net w) x + k" "calls_ok (snd t) k"
    and nz: "snd t \<noteq> Done Already_saved"
    by blast
  from r nz k(2) have "1 \<le> k \<and> k \<le> 5" by (cases r) simp_all
  moreover from k(1) download_returned(4)[OF run]
  have "count_list (net w') x = count_list (net w) x + k" by simp
  ultimately
  have a: "\<exists>k. 1 \<le> k \<and> k \<le> 5 \<and> count_list (net w') x = count_list (net w) x + k" by blast
  have "count_list (map fst outs) x = count (mset (map fst outs)) x"
    by (simp only: count_mset)
  also have "\<dots> = count (mset ids) x"
    using download_outcomes[OF run] by simp
  also have "\<dots> = 1" using d x by (simp add: distinct_count_atmost_1)
  finally have "count_list (map fst outs) x = 1" .
  with a show ?thesis by blast
qed

theorem one_attempt_sequence_witness:
  "case download_with_eta flaky 8 (sequential 3) cached_A [''A'', ''B'', ''C''] of
     Some (Inr (outs, w')) \<Rightarrow>
       (\<exists>k. 1 \<le> k \<and> k \<le> 5 \<and> count_list (net w') ''C'' = k) \<and>
       count_list (map fst outs) ''C'' = 1
   | _ \<Rightarrow> False"
proof -
  obtain outs w' where
    run: "download_with_eta flaky 8 (sequential 3) cached_A [''A'', ''B'', ''C''] = Some (Inr (outs, w'))"
    using example_returns[of flaky cached_A] by blast
  have d: "distinct [''A'', ''B'', ''C'']" by simp
  have x: "''C'' \<in> set [''A'', ''B'', ''C'']" by simp
  have absent: "files cached_A ''C'' = None" by (simp add: cached_A_def)
  from one_attempt_sequence[OF d x absent run] run show ?thesis
    by (simp add: cached_A_def)
qed

text \<open>The price-aware discoverer lists object 7 twice; both tasks are in the retry loop at
  the same time, and the run sends two attempt sequences of five requests.\<close>

theorem one_attempt_sequence_counterexample:
  "map object_id (fst (scrape_property_links_price repeated_listing 2)) = [''7'', ''7''] \<and>
   files fresh ''7'' = None \<and>
   tasks (run_pool unreachable 8 [0, 1, 0, 1, 0, 1] (submit_all [''7'', ''7''] fresh)) =
     [(''7'', Fetch [1, 2, 3, 4]), (''7'', Fetch [1, 2, 3, 4])] \<and>
   final_net (download_with_eta_price unreachable 8 (sequential 2) fresh
       (fst (scrape_property_links_price repeated_listing 2))) =
     Some [''7'', ''7'', ''7'', ''7'', ''7'', ''7'', ''7'', ''7'', ''7'', ''7'']"
  by code_simp

section \<open>Write-once within a run over a duplicate-free list\<close>

lemma map_fst_update:
  "i < length ts \<Longrightarrow> ts ! i = (oid, c) \<Longrightarrow> map fst (ts[i := (oid, c')]) = map fst ts"
  by (simp add: map_update) (metis fst_conv list_update_id map_update)

lemma guarded_step: "guarded p \<Longrightarrow> guarded (pool_step e mw i p)"
proof (cases e mw i p rule: pool_step_cases)
  case idle
  assume "guarded p"
  with idle show ?thesis by simp
next
  case (move oid c c' w')
  assume inv: "guarded p"
  then have d: "distinct (map fst (tasks p))" by (simp add: guarded_def)
  from move(1,2) have mem: "(oid, c) \<in> set (tasks p)" by (metis nth_mem)
  have "files w' (fst t) = None"
    if t: "t \<in> set ((tasks p)[i := (oid, c')])" "writer (snd t)" for t
  proof (cases "fst t = oid")
    case True
    from only_task[OF d move(1) _ t(1) True] move(2) have "t = (oid, c')" by simp
    with t(2) have "writer c'" by simp
    from task_step_writer[OF move(4) this]
    consider "writer c" | "c = Check" "files (shared p) oid = None" by auto
    then have "files w' oid = None"
    proof cases
      case 1
      with inv mem have none: "files (shared p) oid = None" by (auto simp: guarded_def)
      from 1 \<open>writer c'\<close> move(4) have "\<forall>body. c \<noteq> Store body"
        by (auto simp: store_file_def Let_def split: store_result.splits)
      from task_step_files_writer[OF move(4) this] none show ?thesis by simp
    next
      case 2
      with move(4) show ?thesis by simp
    qed
    with True show ?thesis by simp
  next
    case False
    with in_set_updateD[OF t(1)] have "t \<in> set (tasks p)" by auto
    with inv t(2) have "files (shared p) (fst t) = None" by (auto simp: guarded_def)
    with task_step_files_other[OF move(4) False] show ?thesis by simp
  qed
  with d map_fst_update[OF move(1,2)] show ?thesis by (simp add: guarded_def move(5))
qed

lemma guarded_keeps_step:
  assumes "guarded p" "files (shared p) x = Some b"
  shows "files (shared (pool_step e mw i p)) x = Some b"
proof (cases e mw i p rule: pool_step_cases)
  case idle
  with assms(2) show ?thesis by simp
next
  case (move oid c c' w')
  from move(1,2) have mem: "(oid, c) \<in> set (tasks p)" by (metis nth_mem)
  show ?thesis
  proof (cases "\<exists>body. c = Store body")
    case True
    then have "writer c" by auto
    with assms(1) mem have "files (shared p) oid = None" by (auto simp: guarded_def)
    with assms(2) have "x \<noteq> oid" by auto
    from task_step_files_other[OF move(4) this] assms(2) show ?thesis by (simp add: move(5))
  next
    case False
    then have "files w' = files (shared p)" using task_step_files_writer[OF move(4)] by blast
    with assms(2) show ?thesis by (simp add: move(5))
  qed
qed

lemma guarded_run: "distinct ids \<Longrightarrow> guarded (run_pool e mw sched (submit_all ids w))"
  by (rule run_pool_invariant[where I = guarded])
     (simp_all add: guarded_step, simp add: guarded_def submit_all_def comp_def)

lemma written_once:
  assumes "distinct ids"
    and "files (shared (run_pool e mw earlier (submit_all ids w))) x = Some b"
  shows "files (shared (run_pool e mw (earlier @ later) (submit_all ids w))) x = Some b"
proof -
  let ?p1 = "run_pool e mw earlier (submit_all ids w)"
  have "guarded_with x b (run_pool e mw later ?p1)"
  proof (rule run_pool_invariant[where I = "guarded_with x b"])
    show "guarded_with x b ?p1"
      using guarded_run[OF assms(1)] assms(2) by (simp add: guarded_with_def)
  next
    fix p i assume "guarded_with x b p"
    then show "guarded_with x b (pool_step e mw i p)"
      by (simp add: guarded_with_def guarded_step guarded_keeps_step)
  qed
  then show ?thesis by (simp add: guarded_with_def run_pool_append)
qed

text \<open>
  C8, as the code has it. A document that exists is a permanent skip: \<^verbatim>\<open>save_html\<close>
  returns \<^verbatim>\<open>Already saved\<close> for it without changing anything, whatever the server would
  answer. A document that exists when a run starts is there with the same content at
  every point of the run, over any item list. In a run over a duplicate-free list, as the
  ID-only script submits, a document that exists at any point of the run is there with
  the same content at every later point.
\<close>

theorem cached_document_kept:
  "(files w x = Some b \<longrightarrow> save_html e x w = (Already_saved, w)) \<and>
   (files w x = Some b \<longrightarrow>
      files (shared (run_pool e mw sched (submit_all ids w))) x = Some b) \<and>
   (distinct ids \<and> files (shared (run_pool e mw earlier (submit_all ids w))) x = Some b \<longrightarrow>
      files (shared (run_pool e mw (earlier @ later) (submit_all ids w))) x = Some b)"
proof -
  have "files (shared (run_pool e mw sched (submit_all ids w))) x = Some b"
    if "files w x = Some b"
    using keeps_run[of w e mw sched ids] that by (simp add: keeps_def)
  moreover have "save_html e x w = (Already_saved, w)" if "files w x = Some b"
    using that by (simp add: save_html_def)
  ultimately show ?thesis using written_once[of ids e mw earlier w x b later] by blast
qed

theorem cached_document_kept_witness:
  "files cached_A ''A'' = Some ''old page A'' \<and>
   save_html unreachable ''A'' cached_A = (Already_saved, cached_A) \<and>
   files (shared (run_pool flaky 8 (sequential 3) (submit_all [''A'', ''B'', ''C''] cached_A))) ''A'' =
     Some ''old page A'' \<and>
   files (shared (run_pool flaky 8 [0, 1, 0, 1, 0, 1, 1] (submit_all [''A'', ''B'', ''C''] cached_A)))
     ''B'' = Some ''page B'' \<and>
   files (shared (run_pool flaky 8 ([0, 1, 0, 1, 0, 1, 1] @ sequential 3)
     (submit_all [''A'', ''B'', ''C''] cached_A))) ''B'' = Some ''page B''"
proof -
  have cached: "files cached_A ''A'' = Some ''old page A''" by (simp add: cached_A_def)
  have d: "distinct [''A'', ''B'', ''C'']" by simp
  have mid: "files (shared (run_pool flaky 8 [0, 1, 0, 1, 0, 1, 1]
      (submit_all [''A'', ''B'', ''C''] cached_A))) ''B'' = Some ''page B''"
    by code_simp
  from cached_document_kept[where w = cached_A and x = "''A''" and b = "''old page A''"
      and e = unreachable]
    cached_document_kept[where w = cached_A and x = "''A''" and b = "''old page A''"
      and e = flaky and mw = 8 and sched = "sequential 3" and ids = "[''A'', ''B'', ''C'']"]
    cached_document_kept[where w = cached_A and x = "''B''" and b = "''page B''"
      and e = flaky and mw = 8 and ids = "[''A'', ''B'', ''C'']"
      and earlier = "[0, 1, 0, 1, 0, 1, 1]" and later = "sequential 3"]
    cached d mid
  show ?thesis by simp
qed

text \<open>The price-aware discoverer lists object 7 twice. Both workers test for the file
  before either has written it; the first stores the page as served then, and the second
  replaces that document with the page as served later.\<close>

theorem cached_document_counterexample:
  "map object_id (fst (scrape_property_links_price repeated_listing 2)) = [''7'', ''7''] \<and>
   files fresh ''7'' = None \<and>
   files (shared (run_pool changing 8 [0, 0, 1, 1, 0, 0] (submit_all [''7'', ''7''] fresh))) ''7'' =
     Some ''v1'' \<and>
   files (shared (run_pool changing 8 ([0, 0, 1, 1, 0, 0] @ [1, 1])
     (submit_all [''7'', ''7''] fresh))) ''7'' = Some ''v2''"
  by code_simp

section \<open>Re-running over a populated cache\<close>

lemma first_run_populates:
  assumes run1: "download_with_eta e1 mw1 sched1 w0 ids = Some (Inr (outs1, w1))"
    and ok: "\<forall>d\<in>set outs1. snd d = Saved \<or> snd d = Already_saved"
  shows "\<forall>x\<in>set ids. files w1 x \<noteq> None"
proof
  fix x assume "x \<in> set ids"
  with download_outcomes[OF run1] have "x \<in> set (map fst outs1)" by (metis mset_eq_setD)
  then obtain r where mem: "(x, r) \<in> set outs1" by auto
  with ok have "r = Saved \<or> r = Already_saved" by auto
  with stored_run[of e1 mw1 sched1 ids w0] download_returned(3,4)[OF run1] mem
  show "files w1 x \<noteq> None" by (auto simp: stored_def)
qed

text \<open>
  C6. A run over an item list whose documents are all in the cache, as a first run that
  reported no failure leaves it (\<open>first_run_populates\<close>), sends no request, leaves the
  shared state as it is and reports every item as \<^verbatim>\<open>Already saved\<close>, with any number of
  workers, any interleaving and any behaviour of the server.
\<close>

theorem second_run_skips_all:
  assumes populated: "\<forall>x\<in>set ids. files w1 x \<noteq> None"
    and run2: "download_with_eta e2 mw2 sched2 w1 ids = Some (Inr (outs2, w2))"
  shows "w2 = w1 \<and> net w2 = net w1 \<and> (\<forall>d\<in>set outs2. snd d = Already_saved) \<and>
         mset (map fst outs2) = mset ids"
proof -
  from quiet_run[OF populated, of e2 mw2 sched2] download_returned(3,4)[OF run2]
  have "w2 = w1" "\<forall>d\<in>set outs2. snd d = Already_saved" by (simp_all add: quiet_def)
  with download_outcomes[OF run2] show ?thesis by simp
qed

theorem second_run_skips_all_witness:
  "case download_with_eta flaky 8 (sequential 2) cached_A [''A'', ''B''] of
     Some (Inr (outs1, w1)) \<Rightarrow>
       (\<forall>x\<in>set [''A'', ''B'']. files w1 x \<noteq> None) \<and>
       (case download_with_eta unreachable 3 (sequential 2) w1 [''A'', ''B''] of
          Some (Inr (outs2, w2)) \<Rightarrow>
            net w2 = net w1 \<and> w2 = w1 \<and> (\<forall>d\<in>set outs2. snd d = Already_saved)
        | _ \<Rightarrow> False)
   | _ \<Rightarrow> False"
proof -
  obtain outs1 w1 where
    run1: "download_with_eta flaky 8 (sequential 2) cached_A [''A'', ''B''] = Some (Inr (outs1, w1))"
    using two_items_return[of 8 flaky cached_A] by auto
  obtain outs2 w2 where
    run2: "download_with_eta unreachable 3 (sequential 2) w1 [''A'', ''B''] = Some (Inr (outs2, w2))"
    using two_items_return[of 3 unreachable w1] by auto
  from first_run_outcomes run1 have "outs1 = [(''A'', Already_saved), (''B'', Saved)]"
    by (simp add: outcomes_def)
  then have ok: "\<forall>d\<in>set outs1. snd d = Saved \<or> snd d = Already_saved" by simp
  have populated: "\<forall>x\<in>set [''A'', ''B'']. files w1 x \<noteq> None"
    by (rule first_run_populates[OF run1 ok])
  from second_run_skips_all[OF populated run2] populated run1 run2 show ?thesis by simp
qed

section \<open>An item that the server never serves\<close>









end
